theory Spec2Isabelle
  imports Main "HOL-Library.Sublist"
begin

text \<open>
  The create-template handler of \<open>src/backendSrc/apps/posts/api/createTemplates.ts\<close> and its
  earlier variant \<open>src/unnamed/part_000\<close>: validation of the request body, the recursive
  sanitizer, the serialisation with its textual scrub, the size gate, the insert with its
  duplicate answer, and the read-back.

  Text is held as its UTF-8 bytes: a \<open>string\<close> is the byte sequence of a JavaScript string,
  so its \<open>length\<close> is the size of the \<open>Blob\<close> made from it, and the patterns of the source,
  which are ASCII, match on the bytes exactly where they match on the UTF-16 code units. A
  string with an unpaired surrogate has no such form and is left out.
\<close>

section \<open>JSON values\<close>

text \<open>
  A value as \<open>request.json()\<close> delivers it. An object is the list of its own enumerable
  properties in the order of \<open>Object.entries\<close>; in an object of the program the keys are
  pairwise different. Numbers are opaque to the handler, so their type is a parameter, and
  \<open>JSON.stringify\<close> takes the rendering of a number as an argument.
\<close>

datatype 'n json =
    JNull
  | JBool bool
  | JNum 'n
  | JStr string
  | JArr "'n json list"
  | JObj "(string \<times> 'n json) list"

text \<open>
  \<open>setOwn k v\<close> defines the own property \<open>k\<close>: in place when the key is there, at the end
  otherwise. \<open>assignProp output k v\<close> is the assignment \<open>output[k] = v\<close> of line 64 on the object
  literal of line 61. Such an object inherits the accessor \<open>__proto__\<close> of
  \<open>Object.prototype\<close>, so the assignment with \<open>k = "__proto__"\<close> calls that setter: it changes
  the prototype (for an object or null) or does nothing (for any other value), and defines no
  own property either way. The prototype is seen neither by \<open>Object.entries\<close> nor by
  \<open>JSON.stringify\<close>, which go through own properties only, so it is not part of the model.
\<close>

fun setOwn :: "string \<Rightarrow> 'v \<Rightarrow> (string \<times> 'v) list \<Rightarrow> (string \<times> 'v) list" where
  "setOwn k v [] = [(k, v)]"
| "setOwn k v (e # es) = (if fst e = k then (k, v) # es else e # setOwn k v es)"

definition assignProp :: "(string \<times> 'v) list \<Rightarrow> string \<Rightarrow> 'v \<Rightarrow> (string \<times> 'v) list" where
  "assignProp output k v = (if k = ''__proto__'' then output else setOwn k v output)"

text \<open>
  \<open>sanitize\<close>, lines 55 to 69: an array is mapped, an object is copied pair by pair in the
  order of \<open>Object.entries\<close> without the pairs named \<open>elementScript\<close>, anything else
  (null is falsy, the rest is no object) is returned as it is.
\<close>

fun sanitize :: "'n json \<Rightarrow> 'n json" where
  "sanitize (JArr xs) = JArr (map sanitize xs)"
| "sanitize (JObj input) =
     JObj (foldl (\<lambda>output (k, v).
             if k = ''elementScript'' then output else assignProp output k (sanitize v))
           [] input)"
| "sanitize v = v"

text \<open>
  \<open>entries\<close> are the pairs of an object, \<open>allKeys\<close> the keys of all objects inside a value,
  at any depth.
\<close>

fun entries :: "'n json \<Rightarrow> (string \<times> 'n json) list" where
  "entries (JObj kvs) = kvs"
| "entries v = []"

fun allKeys :: "'n json \<Rightarrow> string list" where
  "allKeys (JArr xs) = concat (map allKeys xs)"
| "allKeys (JObj kvs) = concat (map (\<lambda>(k, v). k # allKeys v) kvs)"
| "allKeys v = []"


section \<open>Serialisation and the textual scrub\<close>

text \<open>
  \<open>JSON.stringify\<close> with one argument, after ECMAScript's \<open>SerializeJSONProperty\<close> and
  \<open>QuoteJSONString\<close>: no white space, the seven short escapes, \<open>\u00xx\<close> with lower-case
  digits for the other characters below 0x20, everything else as it is.
\<close>

definition hexDigit :: "nat \<Rightarrow> char" where
  "hexDigit d = ''0123456789abcdef'' ! d"

definition unicodeEscape :: "char \<Rightarrow> string" where
  "unicodeEscape c =
     [CHR 0x5C, CHR ''u'', CHR ''0'', CHR ''0'',
      hexDigit (of_char c div 16), hexDigit (of_char c mod 16)]"

definition quoteChar :: "char \<Rightarrow> string" where
  "quoteChar c =
     (if c = CHR 0x08 then [CHR 0x5C, CHR ''b'']
      else if c = CHR 0x09 then [CHR 0x5C, CHR ''t'']
      else if c = CHR 0x0A then [CHR 0x5C, CHR ''n'']
      else if c = CHR 0x0C then [CHR 0x5C, CHR ''f'']
      else if c = CHR 0x0D then [CHR 0x5C, CHR ''r'']
      else if c = CHR 0x22 then [CHR 0x5C, CHR 0x22]
      else if c = CHR 0x5C then [CHR 0x5C, CHR 0x5C]
      else if (of_char c :: nat) < 0x20 then unicodeEscape c
      else [c])"

definition QuoteJSONString :: "string \<Rightarrow> string" where
  "QuoteJSONString s = CHR 0x22 # concat (map quoteChar s) @ [CHR 0x22]"

fun joinComma :: "string list \<Rightarrow> string" where
  "joinComma [] = []"
| "joinComma [x] = x"
| "joinComma (x # y # zs) = x @ '','' @ joinComma (y # zs)"

fun JSON_stringify :: "('n \<Rightarrow> string) \<Rightarrow> 'n json \<Rightarrow> string" where
  "JSON_stringify nts JNull = ''null''"
| "JSON_stringify nts (JBool b) = (if b then ''true'' else ''false'')"
| "JSON_stringify nts (JNum n) = nts n"
| "JSON_stringify nts (JStr s) = QuoteJSONString s"
| "JSON_stringify nts (JArr xs) = ''['' @ joinComma (map (JSON_stringify nts) xs) @ '']''"
| "JSON_stringify nts (JObj kvs) =
     ''{'' @ joinComma (map (\<lambda>(k, v). QuoteJSONString k @ '':'' @ JSON_stringify nts v) kvs) @ ''}''"

text \<open>
  \<open>replace_g pat rep\<close> is \<open>.replace(/pat/g, rep)\<close> for a pattern that is a literal text, as
  both patterns of lines 74 and 75 are (the replacement texts have no \<open>$\<close> in them): the leftmost
  match is replaced and the search goes on behind it.
\<close>

function replace_g :: "string \<Rightarrow> string \<Rightarrow> string \<Rightarrow> string" where
  "replace_g pat rep [] = []"
| "replace_g pat rep (c # cs) =
     (if pat \<noteq> [] \<and> prefix pat (c # cs)
      then rep @ replace_g pat rep (drop (length pat) (c # cs))
      else c # replace_g pat rep cs)"
  by pat_completeness auto
termination
  by (relation "measure (\<lambda>(pat, rep, s). length s)") auto

text \<open>
  \<open>contentForDb\<close>, lines 73 to 75. \<open>scrub\<close> is the pair of replacements on any text, and
  \<open>strings\<close> lists the string leaves of a value.
\<close>

definition contentForDb :: "('n \<Rightarrow> string) \<Rightarrow> 'n json \<Rightarrow> string" where
  "contentForDb nts sanitizedContent =
     replace_g ''</script>'' ''&lt;/script&gt;''
       (replace_g ''<script>'' ''&lt;script&gt;'' (JSON_stringify nts sanitizedContent))"

definition scrub :: "string \<Rightarrow> string" where
  "scrub t =
     replace_g ''</script>'' ''&lt;/script&gt;'' (replace_g ''<script>'' ''&lt;script&gt;'' t)"

fun strings :: "'n json \<Rightarrow> string list" where
  "strings (JStr s) = [s]"
| "strings (JArr xs) = concat (map strings xs)"
| "strings (JObj kvs) = concat (map (\<lambda>(k, v). strings v) kvs)"
| "strings v = []"

text \<open>
  \<open>new Blob([contentForDb]).size\<close> is the number of bytes of the UTF-8 form of the text;
  \<open>maxBytes\<close> is line 80. \<open>includesStr s pat\<close> is \<open>s.includes(pat)\<close>.
\<close>

definition blobSize :: "string \<Rightarrow> nat" where
  "blobSize s = length s"

definition maxBytes :: nat where
  "maxBytes = 900 * 1024"

fun includesStr :: "string \<Rightarrow> string \<Rightarrow> bool" where
  "includesStr [] pat = (pat = [])"
| "includesStr (c # cs) pat = (prefix pat (c # cs) \<or> includesStr cs pat)"


section \<open>Reading JSON text\<close>

text \<open>
  \<open>JSON.parse\<close>, needed to say what the stored text reads back as. It follows the JSON
  grammar: white space between tokens, strings with their escapes (a \<open>\uXXXX\<close> escape gives
  the UTF-8 bytes of its code point, a pair of surrogate escapes those of the pair's code
  point), the three literals, numbers, arrays and objects. A later member of an object under
  an earlier key replaces its value. The text of a number is handed to the parameter \<open>rd\<close>.
  The recursion is bounded by a budget; twice the length of the text is given, and
  \<open>JSON_parse_stringify\<close> below shows it to be enough for every text that
  \<open>JSON_stringify\<close> writes. The order that JavaScript gives to keys that are array indices is
  not modelled.
\<close>

definition isWhitespace :: "char \<Rightarrow> bool" where
  "isWhitespace c = (c = CHR 0x20 \<or> c = CHR 0x09 \<or> c = CHR 0x0A \<or> c = CHR 0x0D)"

definition skipWs :: "string \<Rightarrow> string" where
  "skipWs s = dropWhile isWhitespace s"

definition hexValue :: "char \<Rightarrow> nat option" where
  "hexValue c = map_of (zip ''0123456789abcdefABCDEF''
     [0, 1, 2, 3, 4, 5, 6, 7, 8, 9, 10, 11, 12, 13, 14, 15, 10, 11, 12, 13, 14, 15]) c"

definition hex4 :: "char \<Rightarrow> char \<Rightarrow> char \<Rightarrow> char \<Rightarrow> nat option" where
  "hex4 a b c d =
     (case (hexValue a, hexValue b, hexValue c, hexValue d) of
        (Some h3, Some h2, Some h1, Some h0) \<Rightarrow> Some (((h3 * 16 + h2) * 16 + h1) * 16 + h0)
      | _ \<Rightarrow> None)"

definition utf8 :: "nat \<Rightarrow> string" where
  "utf8 u =
     (if u < 0x80 then [char_of u]
      else if u < 0x800 then [char_of (0xC0 + u div 0x40), char_of (0x80 + u mod 0x40)]
      else if u < 0x10000 then
        [char_of (0xE0 + u div 0x1000), char_of (0x80 + u div 0x40 mod 0x40),
         char_of (0x80 + u mod 0x40)]
      else
        [char_of (0xF0 + u div 0x40000), char_of (0x80 + u div 0x1000 mod 0x40),
         char_of (0x80 + u div 0x40 mod 0x40), char_of (0x80 + u mod 0x40)])"

definition unescape :: "char \<Rightarrow> char option" where
  "unescape e =
     (if e = CHR 0x22 then Some (CHR 0x22)
      else if e = CHR 0x5C then Some (CHR 0x5C)
      else if e = CHR ''/'' then Some (CHR ''/'')
      else if e = CHR ''b'' then Some (CHR 0x08)
      else if e = CHR ''f'' then Some (CHR 0x0C)
      else if e = CHR ''n'' then Some (CHR 0x0A)
      else if e = CHR ''r'' then Some (CHR 0x0D)
      else if e = CHR ''t'' then Some (CHR 0x09)
      else None)"

definition lowSurrogateEscape :: "string \<Rightarrow> nat option" where
  "lowSurrogateEscape s =
     (case s of
        b # u # h3 # h2 # h1 # h0 # rest \<Rightarrow>
          if b = CHR 0x5C \<and> u = CHR ''u'' then
            (case hex4 h3 h2 h1 h0 of
               Some l \<Rightarrow> if 0xDC00 \<le> l \<and> l < 0xE000 then Some l else None
             | None \<Rightarrow> None)
          else None
      | _ \<Rightarrow> None)"

fun parseChars :: "string \<Rightarrow> (string \<times> string) option" where
  "parseChars [] = None"
| "parseChars (c # cs) =
     (if c = CHR 0x22 then Some ([], cs)
      else if c = CHR 0x5C then
        (case cs of
           [] \<Rightarrow> None
         | e # es \<Rightarrow>
             if e = CHR ''u'' then
               (case es of
                  h3 # h2 # h1 # h0 # rest \<Rightarrow>
                    (case hex4 h3 h2 h1 h0 of
                       None \<Rightarrow> None
                     | Some u \<Rightarrow>
                         (case (if 0xD800 \<le> u \<and> u < 0xDC00 then lowSurrogateEscape rest else None) of
                            Some l \<Rightarrow>
                              map_option
                                (\<lambda>(s, r). (utf8 (0x10000 + (u - 0xD800) * 0x400 + (l - 0xDC00)) @ s, r))
                                (parseChars (drop 6 rest))
                          | None \<Rightarrow>
                              map_option (\<lambda>(s, r). (utf8 u @ s, r)) (parseChars rest)))
                | _ \<Rightarrow> None)
             else
               (case unescape e of
                  None \<Rightarrow> None
                | Some x \<Rightarrow> map_option (\<lambda>(s, r). (x # s, r)) (parseChars es)))
      else if (of_char c :: nat) < 0x20 then None
      else map_option (\<lambda>(s, r). (c # s, r)) (parseChars cs))"

definition isDigit :: "char \<Rightarrow> bool" where
  "isDigit c = (c \<in> set ''0123456789'')"

definition isNumberChar :: "char \<Rightarrow> bool" where
  "isNumberChar c = (c \<in> set ''-+.eE0123456789'')"

definition digits1 :: "string \<Rightarrow> bool" where
  "digits1 s = (s \<noteq> [] \<and> list_all isDigit s)"

definition isExponent :: "string \<Rightarrow> bool" where
  "isExponent s =
     (case s of
        [] \<Rightarrow> True
      | e # r \<Rightarrow>
          (e = CHR ''e'' \<or> e = CHR ''E'')
          \<and> (case r of
                [] \<Rightarrow> False
              | g # ds \<Rightarrow> if g = CHR ''+'' \<or> g = CHR ''-'' then digits1 ds else digits1 r))"

definition isFraction :: "string \<Rightarrow> bool" where
  "isFraction s =
     (case s of
        [] \<Rightarrow> True
      | p # r \<Rightarrow>
          if p = CHR ''.''
          then takeWhile isDigit r \<noteq> [] \<and> isExponent (dropWhile isDigit r)
          else isExponent s)"

definition isJsonNumber :: "string \<Rightarrow> bool" where
  "isJsonNumber s =
     (let u = (case s of [] \<Rightarrow> [] | m # r \<Rightarrow> if m = CHR ''-'' then r else s);
          ds = takeWhile isDigit u
      in ds \<noteq> [] \<and> (hd ds = CHR ''0'' \<longrightarrow> ds = ''0'') \<and> isFraction (dropWhile isDigit u))"

fun parseValue :: "(string \<Rightarrow> 'n) \<Rightarrow> nat \<Rightarrow> string \<Rightarrow> ('n json \<times> string) option"
and parseElements :: "(string \<Rightarrow> 'n) \<Rightarrow> nat \<Rightarrow> string \<Rightarrow> ('n json list \<times> string) option"
and parseMembers :: "(string \<Rightarrow> 'n) \<Rightarrow> nat \<Rightarrow> string \<Rightarrow> ((string \<times> 'n json) list \<times> string) option"
where
  "parseValue rd 0 s = None"
| "parseValue rd (Suc fuel) s =
     (case skipWs s of
        [] \<Rightarrow> None
      | c # cs \<Rightarrow>
          if c = CHR 0x22 then map_option (\<lambda>(t, r). (JStr t, r)) (parseChars cs)
          else if c = CHR ''['' then
            (case skipWs cs of
               [] \<Rightarrow> None
             | d # ds \<Rightarrow>
                 if d = CHR '']'' then Some (JArr [], ds)
                 else map_option (\<lambda>(xs, r). (JArr xs, r)) (parseElements rd fuel cs))
          else if c = CHR ''{'' then
            (case skipWs cs of
               [] \<Rightarrow> None
             | d # ds \<Rightarrow>
                 if d = CHR ''}'' then Some (JObj [], ds)
                 else map_option
                        (\<lambda>(ms, r). (JObj (foldl (\<lambda>obj (k, v). setOwn k v obj) [] ms), r))
                        (parseMembers rd fuel cs))
          else if prefix ''null'' (c # cs) then Some (JNull, drop 4 (c # cs))
          else if prefix ''true'' (c # cs) then Some (JBool True, drop 4 (c # cs))
          else if prefix ''false'' (c # cs) then Some (JBool False, drop 5 (c # cs))
          else if isJsonNumber (takeWhile isNumberChar (c # cs))
          then Some (JNum (rd (takeWhile isNumberChar (c # cs))), dropWhile isNumberChar (c # cs))
          else None)"
| "parseElements rd 0 s = None"
| "parseElements rd (Suc fuel) s =
     (case parseValue rd fuel s of
        None \<Rightarrow> None
      | Some (v, r) \<Rightarrow>
          (case skipWs r of
             [] \<Rightarrow> None
           | d # ds \<Rightarrow>
               if d = CHR '','' then map_option (\<lambda>(xs, r'). (v # xs, r')) (parseElements rd fuel ds)
               else if d = CHR '']'' then Some ([v], ds)
               else None))"
| "parseMembers rd 0 s = None"
| "parseMembers rd (Suc fuel) s =
     (case skipWs s of
        [] \<Rightarrow> None
      | q # cs \<Rightarrow>
          if q = CHR 0x22 then
            (case parseChars cs of
               None \<Rightarrow> None
             | Some (k, r) \<Rightarrow>
                 (case skipWs r of
                    [] \<Rightarrow> None
                  | p # ps \<Rightarrow>
                      if p = CHR '':'' then
                        (case parseValue rd fuel ps of
                           None \<Rightarrow> None
                         | Some (v, r') \<Rightarrow>
                             (case skipWs r' of
                                [] \<Rightarrow> None
                              | d # ds \<Rightarrow>
                                  if d = CHR '','' then
                                    map_option (\<lambda>(ms, r''). ((k, v) # ms, r''))
                                      (parseMembers rd fuel ds)
                                  else if d = CHR ''}'' then Some ([(k, v)], ds)
                                  else None))
                      else None))
          else None)"

definition JSON_parse :: "(string \<Rightarrow> 'n) \<Rightarrow> string \<Rightarrow> 'n json option" where
  "JSON_parse rd s =
     (case parseValue rd (2 * length s + 2) s of
        None \<Rightarrow> None
      | Some (v, r) \<Rightarrow> if skipWs r = [] then Some v else None)"


text \<open>
  \<open>numbers\<close> lists the number leaves of a value; \<open>keysDistinct\<close> says that in every object
  inside a value the keys are pairwise different; \<open>weight\<close> bounds the budget that reading a
  value back takes.
\<close>

fun numbers :: "'n json \<Rightarrow> 'n list" where
  "numbers (JNum n) = [n]"
| "numbers (JArr xs) = concat (map numbers xs)"
| "numbers (JObj kvs) = concat (map (\<lambda>(k, v). numbers v) kvs)"
| "numbers v = []"

fun keysDistinct :: "'n json \<Rightarrow> bool" where
  "keysDistinct (JArr xs) = list_all keysDistinct xs"
| "keysDistinct (JObj kvs) = (distinct (map fst kvs) \<and> list_all (\<lambda>(k, v). keysDistinct v) kvs)"
| "keysDistinct v = True"

fun weight :: "'n json \<Rightarrow> nat" where
  "weight (JArr xs) = Suc (sum_list (map (\<lambda>x. Suc (weight x)) xs))"
| "weight (JObj kvs) = Suc (sum_list (map (\<lambda>(k, v). Suc (weight v)) kvs))"
| "weight v = Suc 0"

section \<open>Request validation\<close>

text \<open>
  \<open>RequestSchema\<close>, lines 7 to 10, and \<open>RequestSchema.parse(body)\<close>, line 52. The body has
  to be an object; \<open>id\<close> may be absent, \<open>content\<close> may not; unknown keys are ignored. The
  issues of both fields are collected, each with its path and its code, and thrown together
  as one \<open>ZodError\<close>.
\<close>

datatype issue = Issue (path: "string list") (code: string)

text \<open>
  Modelled from the spec: the format that the \<open>uuid()\<close> check of the validation library
  accepts, which is no part of the source: 32 hexadecimal digits in five groups of 8, 4, 4, 4
  and 12, with a hyphen between the groups.
\<close>

definition isHexDigit :: "char \<Rightarrow> bool" where
  "isHexDigit c = (c \<in> set ''0123456789abcdefABCDEF'')"

fun hexGroups :: "nat list \<Rightarrow> string \<Rightarrow> bool" where
  "hexGroups [] s = False"
| "hexGroups [n] s = (length s = n \<and> list_all isHexDigit s)"
| "hexGroups (n # m # ns) s =
     (n < length s \<and> list_all isHexDigit (take n s) \<and> s ! n = CHR ''-''
      \<and> hexGroups (m # ns) (drop (Suc n) s))"

definition isUuid :: "string \<Rightarrow> bool" where
  "isUuid s = hexGroups [8, 4, 4, 4, 12] s"

definition idSchema :: "'n json \<Rightarrow> bool" where
  "idSchema v = (case v of JStr s \<Rightarrow> isUuid s | _ \<Rightarrow> False)"

definition contentSchema :: "'n json \<Rightarrow> bool" where
  "contentSchema v = (case v of JStr s \<Rightarrow> True | JObj es \<Rightarrow> True | JArr xs \<Rightarrow> True | _ \<Rightarrow> False)"

definition idIssues :: "(string \<times> 'n json) list \<Rightarrow> issue list" where
  "idIssues kvs =
     (case map_of kvs ''id'' of
        None \<Rightarrow> []
      | Some v \<Rightarrow>
          if idSchema v then []
          else [Issue [''id''] (case v of JStr s \<Rightarrow> ''invalid_string'' | _ \<Rightarrow> ''invalid_type'')])"

definition contentIssues :: "(string \<times> 'n json) list \<Rightarrow> issue list" where
  "contentIssues kvs =
     (case map_of kvs ''content'' of
        None \<Rightarrow> [Issue [''content''] ''invalid_union'']
      | Some v \<Rightarrow> if contentSchema v then [] else [Issue [''content''] ''invalid_union''])"

definition idOf :: "(string \<times> 'n json) list \<Rightarrow> string option" where
  "idOf kvs = (case map_of kvs ''id'' of Some (JStr s) \<Rightarrow> Some s | _ \<Rightarrow> None)"

definition contentOf :: "(string \<times> 'n json) list \<Rightarrow> 'n json" where
  "contentOf kvs = (case map_of kvs ''content'' of Some v \<Rightarrow> v | None \<Rightarrow> JNull)"

definition RequestSchema_parse :: "'n json \<Rightarrow> issue list + (string option \<times> 'n json)" where
  "RequestSchema_parse body =
     (case body of
        JObj kvs \<Rightarrow>
          (let issues = idIssues kvs @ contentIssues kvs
           in if issues = [] then Inr (idOf kvs, contentOf kvs) else Inl issues)
      | _ \<Rightarrow> Inl [Issue [] ''invalid_type''])"

text \<open>
  \<open>accepted\<close> is the contract of the schema in one predicate.
\<close>

definition accepted :: "'n json \<Rightarrow> bool" where
  "accepted body =
     (case body of
        JObj kvs \<Rightarrow>
          (case map_of kvs ''id'' of None \<Rightarrow> True | Some v \<Rightarrow> idSchema v)
          \<and> (case map_of kvs ''content'' of None \<Rightarrow> False | Some v \<Rightarrow> contentSchema v)
      | _ \<Rightarrow> False)"

section \<open>The store and the handler\<close>

text \<open>
  A row of \<open>templates_table\<close> has the columns named by the insert of line 90. A response is
  its status and its JSON body: an error body \<open>{error, details}\<close>, or the stored row.
\<close>

record row =
  row_id :: string
  row_content :: string

datatype details = Text string | Issues "issue list"

datatype payload = Failure string details | Stored row

record response =
  status :: nat
  payload :: payload

text \<open>
  The store is a collaborator. Its state is of a type \<open>'db\<close>; the calls of the handler are
  functions of the environment that return the new state or the message of the error they
  throw (a failed insert leaves the state as it was): \<open>prepared_insert\<close> is the prepared
  statement of lines 90 to 92, \<open>orm_insert\<close> is \<open>db.insert(templatesTable).values(...)\<close> of the
  variant, \<open>select_first\<close> is the query of lines 104 to 106. The environment also holds the
  identifier that \<open>crypto.randomUUID()\<close> would return and the rendering of numbers. The handler
  returns, with its response, the list of the calls it made to the store and the state of the
  store.
\<close>

datatype call = Insert string string | SelectById string

record ('n, 'db) env =
  numberToString :: "'n \<Rightarrow> string"
  randomUUID :: string
  prepared_insert :: "string \<Rightarrow> string \<Rightarrow> 'db \<Rightarrow> string + 'db"
  orm_insert :: "string \<Rightarrow> string \<Rightarrow> 'db \<Rightarrow> string + 'db"
  select_first :: "string \<Rightarrow> 'db \<Rightarrow> string + row option"

text \<open>
  The test of line 95. With the flag \<open>i\<close> and without the flag \<open>u\<close>, a character of the message
  matches a character of the pattern when both have the same upper-case form; no character
  outside ASCII has an ASCII upper-case form there, so on bytes it is the upper-casing of the
  26 letters. \<open>regexSearch\<close> tries every position of the message, \<open>matchesAt\<close> one alternative
  at one position.
\<close>

definition canonicalize :: "char \<Rightarrow> char" where
  "canonicalize c =
     (case map_of (zip ''abcdefghijklmnopqrstuvwxyz'' ''ABCDEFGHIJKLMNOPQRSTUVWXYZ'') c of
        Some C \<Rightarrow> C
      | None \<Rightarrow> c)"

fun matchesAt :: "string \<Rightarrow> string \<Rightarrow> bool" where
  "matchesAt [] s = True"
| "matchesAt (p # ps) [] = False"
| "matchesAt (p # ps) (c # cs) = (canonicalize p = canonicalize c \<and> matchesAt ps cs)"

fun regexSearch :: "(string \<Rightarrow> bool) \<Rightarrow> string \<Rightarrow> bool" where
  "regexSearch m [] = m []"
| "regexSearch m (c # cs) = (m (c # cs) \<or> regexSearch m cs)"

definition uniqueRegexTest :: "string \<Rightarrow> bool" where
  "uniqueRegexTest message =
     regexSearch (\<lambda>s. matchesAt ''unique constraint failed'' s
                     \<or> matchesAt ''UNIQUE constraint failed'' s) message"

text \<open>
  \<open>handle\<close> of \<open>createTemplates.ts\<close>, lines 47 to 128. \<open>handle_try\<close> is the body of the outer
  \<open>try\<close>: it returns a response or throws, and \<open>catchAll\<close> is the \<open>catch\<close> of lines 113 to
  127. The request is \<open>Inl message\<close> when \<open>request.json()\<close> throws, \<open>Inr body\<close> otherwise.
\<close>

definition respond :: "nat \<Rightarrow> payload \<Rightarrow> response" where
  "respond st b = \<lparr>status = st, payload = b\<rparr>"

datatype thrown = ZodError "issue list" | Error string

definition catchAll :: "(thrown + response) \<times> call list \<times> 'db \<Rightarrow> response \<times> call list \<times> 'db" where
  "catchAll r =
     (case r of
        (Inr resp, calls, db) \<Rightarrow> (resp, calls, db)
      | (Inl (ZodError issues), calls, db) \<Rightarrow>
          (respond 400 (Failure ''Validation failed'' (Issues issues)), calls, db)
      | (Inl (Error message), calls, db) \<Rightarrow>
          (respond 500 (Failure ''Internal server error'' (Text message)), calls, db))"

definition readBack :: "('n, 'db) env \<Rightarrow> string \<Rightarrow> call list \<Rightarrow> 'db
    \<Rightarrow> (thrown + response) \<times> call list \<times> 'db" where
  "readBack env templateId calls db =
     (case select_first env templateId db of
        Inl message \<Rightarrow> (Inl (Error message), calls @ [SelectById templateId], db)
      | Inr None \<Rightarrow>
          (Inl (Error ''Failed to fetch inserted template''), calls @ [SelectById templateId], db)
      | Inr (Some result) \<Rightarrow>
          (Inr (respond 201 (Stored result)), calls @ [SelectById templateId], db))"

definition handle_try :: "('n, 'db) env \<Rightarrow> string + 'n json \<Rightarrow> 'db
    \<Rightarrow> (thrown + response) \<times> call list \<times> 'db" where
  "handle_try env request db =
     (case request of
        Inl message \<Rightarrow> (Inl (Error message), [], db)
      | Inr body \<Rightarrow>
          (case RequestSchema_parse body of
             Inl issues \<Rightarrow> (Inl (ZodError issues), [], db)
           | Inr (ident, content) \<Rightarrow>
               (let sanitizedContent = sanitize content;
                    contentForDb = contentForDb (numberToString env) sanitizedContent;
                    templateId = (case ident of Some i \<Rightarrow> i | None \<Rightarrow> randomUUID env)
                in if blobSize contentForDb > maxBytes
                   then (Inr (respond 413
                            (Failure ''Payload too large'' (Text ''content exceeds size limit''))),
                         [], db)
                   else
                     (case prepared_insert env templateId contentForDb db of
                        Inl message \<Rightarrow>
                          if uniqueRegexTest message
                          then (Inr (respond 409
                                  (Failure ''Duplicate id''
                                     (Text ''Template with this id already exists''))),
                                [Insert templateId contentForDb], db)
                          else (Inl (Error message), [Insert templateId contentForDb], db)
                      | Inr db' \<Rightarrow>
                          readBack env templateId [Insert templateId contentForDb] db'))))"

definition handle :: "('n, 'db) env \<Rightarrow> string + 'n json \<Rightarrow> 'db \<Rightarrow> response \<times> call list \<times> 'db" where
  "handle env request db = catchAll (handle_try env request db)"

text \<open>
  \<open>handle\<close> of the variant \<open>part_000\<close>, lines 47 to 108: no size gate, and the insert, through
  the ORM, is not wrapped in a \<open>try\<close> of its own.
\<close>

definition handle_orm_try :: "('n, 'db) env \<Rightarrow> string + 'n json \<Rightarrow> 'db
    \<Rightarrow> (thrown + response) \<times> call list \<times> 'db" where
  "handle_orm_try env request db =
     (case request of
        Inl message \<Rightarrow> (Inl (Error message), [], db)
      | Inr body \<Rightarrow>
          (case RequestSchema_parse body of
             Inl issues \<Rightarrow> (Inl (ZodError issues), [], db)
           | Inr (ident, content) \<Rightarrow>
               (let sanitizedContent = sanitize content;
                    contentForDb = contentForDb (numberToString env) sanitizedContent;
                    templateId = (case ident of Some i \<Rightarrow> i | None \<Rightarrow> randomUUID env)
                in case orm_insert env templateId contentForDb db of
                     Inl message \<Rightarrow> (Inl (Error message), [Insert templateId contentForDb], db)
                   | Inr db' \<Rightarrow>
                       readBack env templateId [Insert templateId contentForDb] db')))"

definition handle_orm :: "('n, 'db) env \<Rightarrow> string + 'n json \<Rightarrow> 'db \<Rightarrow> response \<times> call list \<times> 'db" where
  "handle_orm env request db = catchAll (handle_orm_try env request db)"

text \<open>
  Modelled from the spec: the persistence store, which is no part of the source: a table keyed
  by identifier whose insert reports a uniqueness violation for an identifier that is there,
  and whose point lookup returns the row of an identifier. In \<open>tableEnv\<close> a number is the text
  that stands for it. The general theorems below are about any environment; this one serves
  to run the handler on examples.
\<close>

definition tableInsert :: "string \<Rightarrow> string \<Rightarrow> (string \<rightharpoonup> string) \<Rightarrow> string + (string \<rightharpoonup> string)" where
  "tableInsert i c t =
     (if i \<in> dom t
      then Inl ''D1_ERROR: UNIQUE constraint failed: templates_table.id: SQLITE_CONSTRAINT''
      else Inr (t(i \<mapsto> c)))"

definition tableFirst :: "string \<Rightarrow> (string \<rightharpoonup> string) \<Rightarrow> string + row option" where
  "tableFirst i t = Inr (map_option (\<lambda>c. \<lparr>row_id = i, row_content = c\<rparr>) (t i))"

definition tableEnv :: "string \<Rightarrow> (string, string \<rightharpoonup> string) env" where
  "tableEnv uuid =
     \<lparr>numberToString = (\<lambda>t. t), randomUUID = uuid,
      prepared_insert = tableInsert, orm_insert = tableInsert, select_first = tableFirst\<rparr>"

text \<open>
  \<open>failingEnv uuid m1 m2\<close> is that environment with a store that takes no insert: the prepared
  statement fails with the message \<open>m1\<close>, the ORM insert fails with the message \<open>m2\<close> (an ORM
  wraps the error of its driver in a message of its own).
\<close>

definition failingEnv :: "string \<Rightarrow> string \<Rightarrow> string \<Rightarrow> (string, string \<rightharpoonup> string) env" where
  "failingEnv uuid m1 m2 =
     (tableEnv uuid)\<lparr>prepared_insert := \<lambda>i c t. Inl m1, orm_insert := \<lambda>i c t. Inl m2\<rparr>"

abbreviation (input) copyStep ::
  "('a \<Rightarrow> 'b) \<Rightarrow> (string \<times> 'b) list \<Rightarrow> string \<times> 'a \<Rightarrow> (string \<times> 'b) list" where
  "copyStep f \<equiv>
     (\<lambda>output (k, v). if k = ''elementScript'' then output else assignProp output k (f v))"

section \<open>The recursive sanitizer\<close>

text \<open>
  The loop of \<open>sanitize\<close> over \<open>Object.entries(input)\<close> is a left fold with the step
  \<open>copyStep\<close>; the facts below describe one step and then the whole loop, for any function
  applied to the values.
\<close>

lemma setOwn_keys: "fst ` set (setOwn k v es) = insert k (fst ` set es)"
  by (induction es) auto

lemma setOwn_entries:
  "(a, w) \<in> set (setOwn k v es) \<Longrightarrow> (a, w) \<in> set es \<or> (a = k \<and> w = v)"
  by (induction es) (auto split: if_splits)

lemma setOwn_distinct: "distinct (map fst es) \<Longrightarrow> distinct (map fst (setOwn k v es))"
  by (induction es) (auto simp: setOwn_keys)

lemma setOwn_fresh: "k \<notin> fst ` set es \<Longrightarrow> setOwn k v es = es @ [(k, v)]"
  by (induction es) auto

lemma copyStep_keys:
  "fst ` set (copyStep f acc (k, v)) =
     (if k = ''elementScript'' \<or> k = ''__proto__'' then fst ` set acc
      else insert k (fst ` set acc))"
  by (simp add: assignProp_def setOwn_keys)

lemma copy_keys:
  "fst ` set (foldl (copyStep f) acc kvs) =
     fst ` set acc \<union> {k \<in> fst ` set kvs. k \<noteq> ''elementScript'' \<and> k \<noteq> ''__proto__''}"
proof (induction kvs arbitrary: acc)
  case Nil
  then show ?case by simp
next
  case (Cons e kvs)
  obtain k v where e: "e = (k, v)" by (cases e)
  have "fst ` set (foldl (copyStep f) acc (e # kvs)) =
        fst ` set (copyStep f acc (k, v))
          \<union> {k \<in> fst ` set kvs. k \<noteq> ''elementScript'' \<and> k \<noteq> ''__proto__''}"
    using Cons.IH[of "copyStep f acc (k, v)"] by (simp add: e)
  also have "\<dots> =
        fst ` set acc \<union> {k \<in> fst ` set (e # kvs). k \<noteq> ''elementScript'' \<and> k \<noteq> ''__proto__''}"
    unfolding copyStep_keys by (auto simp: e)
  finally show ?case .
qed

lemma copyStep_entries:
  "(a, w) \<in> set (copyStep f acc (k, v)) \<Longrightarrow>
     (a, w) \<in> set acc \<or> (a = k \<and> k \<noteq> ''elementScript'' \<and> w = f v)"
  by (cases "k = ''elementScript''"; cases "k = ''__proto__''")
     (auto simp: assignProp_def dest: setOwn_entries)

lemma copy_entries:
  "(a, w) \<in> set (foldl (copyStep f) acc kvs) \<Longrightarrow>
     (a, w) \<in> set acc \<or> (\<exists>v. (a, v) \<in> set kvs \<and> a \<noteq> ''elementScript'' \<and> w = f v)"
proof (induction kvs arbitrary: acc)
  case Nil
  then show ?case by simp
next
  case (Cons e kvs)
  obtain k v where e: "e = (k, v)" by (cases e)
  from Cons.prems have "(a, w) \<in> set (foldl (copyStep f) (copyStep f acc (k, v)) kvs)"
    by (simp add: e)
  from Cons.IH[OF this] consider
     "(a, w) \<in> set (copyStep f acc (k, v))"
   | "\<exists>v. (a, v) \<in> set kvs \<and> a \<noteq> ''elementScript'' \<and> w = f v"
    by blast
  then show ?case
  proof cases
    case 1
    from copyStep_entries[OF this] show ?thesis by (auto simp: e)
  next
    case 2
    then show ?thesis by auto
  qed
qed

lemma copyStep_distinct:
  "distinct (map fst acc) \<Longrightarrow> distinct (map fst (copyStep f acc (k, v)))"
  by (simp add: assignProp_def setOwn_distinct)

lemma copy_distinct:
  "distinct (map fst acc) \<Longrightarrow> distinct (map fst (foldl (copyStep f) acc kvs))"
proof (induction kvs arbitrary: acc)
  case Nil
  then show ?case by simp
next
  case (Cons e kvs)
  obtain k v where e: "e = (k, v)" by (cases e)
  from Cons.IH[OF copyStep_distinct[OF Cons.prems, of f k v]] show ?case by (simp add: e)
qed

text \<open>
  On an object whose keys are pairwise different (every object that \<open>JSON.parse\<close> builds),
  the loop is a filter followed by a map: the pairs named \<open>elementScript\<close> or \<open>__proto__\<close>
  leave no entry, every other pair keeps its key and its place.
\<close>

lemma copy_exact:
  "distinct (map fst kvs) \<Longrightarrow> fst ` set acc \<inter> fst ` set kvs = {} \<Longrightarrow>
   foldl (copyStep f) acc kvs =
     acc @ map (\<lambda>(k, v). (k, f v))
             (filter (\<lambda>(k, v). k \<noteq> ''elementScript'' \<and> k \<noteq> ''__proto__'') kvs)"
proof (induction kvs arbitrary: acc)
  case Nil
  then show ?case by simp
next
  case (Cons e kvs)
  obtain k v where e: "e = (k, v)" by (cases e)
  have fresh: "k \<notin> fst ` set acc" using Cons.prems(2) by (auto simp: e)
  have d: "distinct (map fst kvs)" and kn: "k \<notin> fst ` set kvs"
    using Cons.prems(1) by (simp_all add: e)
  have disj: "fst ` set (copyStep f acc (k, v)) \<inter> fst ` set kvs = {}"
    unfolding copyStep_keys using Cons.prems(2) kn by (auto simp: e)
  let ?keep = "\<lambda>(k, v). k \<noteq> ''elementScript'' \<and> k \<noteq> ''__proto__''"
  have step: "copyStep f acc (k, v) = acc @ map (\<lambda>(k, v). (k, f v)) (filter ?keep [(k, v)])"
    using fresh by (simp add: assignProp_def setOwn_fresh)
  have "foldl (copyStep f) acc (e # kvs) = foldl (copyStep f) (copyStep f acc (k, v)) kvs"
    by (simp add: e)
  also have "\<dots> = copyStep f acc (k, v) @ map (\<lambda>(k, v). (k, f v)) (filter ?keep kvs)"
    by (rule Cons.IH[OF d disj])
  also have "\<dots> = acc @ map (\<lambda>(k, v). (k, f v)) (filter ?keep ([(k, v)] @ kvs))"
    unfolding step filter_append map_append by simp
  finally show ?case by (simp add: e)
qed

lemma sanitize_object_distinct:
  "distinct (map fst kvs) \<Longrightarrow>
   sanitize (JObj kvs) =
     JObj (map (\<lambda>(k, v). (k, sanitize v))
             (filter (\<lambda>(k, v). k \<noteq> ''elementScript'' \<and> k \<noteq> ''__proto__'') kvs))"
  using copy_exact[of kvs "[]" sanitize] by simp

lemma sanitize_shape:
  "sanitize (JArr xs) = JArr (map sanitize xs)"
  "length (map sanitize xs) = length xs"
  "sanitize JNull = JNull" "sanitize (JBool b) = JBool b"
  "sanitize (JNum n) = JNum n" "sanitize (JStr s) = JStr s"
  "distinct (map fst kvs) \<Longrightarrow>
   map fst (entries (sanitize (JObj kvs))) =
     filter (\<lambda>k. k \<noteq> ''elementScript'' \<and> k \<noteq> ''__proto__'') (map fst kvs)"
proof -
  show "distinct (map fst kvs) \<Longrightarrow>
   map fst (entries (sanitize (JObj kvs))) =
     filter (\<lambda>k. k \<noteq> ''elementScript'' \<and> k \<noteq> ''__proto__'') (map fst kvs)"
    unfolding sanitize_object_distinct by (induction kvs) auto
qed simp_all

lemma sanitize_entries:
  "(k, w) \<in> set (entries (sanitize (JObj kvs))) \<Longrightarrow>
   \<exists>v. (k, v) \<in> set kvs \<and> k \<noteq> ''elementScript'' \<and> w = sanitize v"
  using copy_entries[of k w sanitize "[]" kvs] by simp

lemma sanitize_keys:
  "fst ` set (entries (sanitize (JObj kvs))) =
     {k \<in> fst ` set kvs. k \<noteq> ''elementScript'' \<and> k \<noteq> ''__proto__''}"
  using copy_keys[of sanitize "[]" kvs] by simp

lemma sanitize_no_elementScript: "''elementScript'' \<notin> set (allKeys (sanitize v))"
proof (induction v rule: sanitize.induct)
  case (2 input)
  have "''elementScript'' \<notin> set (k # allKeys w)"
    if "(k, w) \<in> set (foldl (copyStep sanitize) [] input)" for k w
  proof -
    from copy_entries[OF that]
    obtain v where v: "(k, v) \<in> set input" "k \<noteq> ''elementScript''" "w = sanitize v"
      by auto
    from 2[OF v(1) refl v(2)] v show ?thesis by simp
  qed
  then show ?case by auto
qed simp_all

lemma sanitize_fixpoint: "sanitize (sanitize v) = sanitize v"
proof (induction v rule: sanitize.induct)
  case (1 xs)
  then show ?case by simp
next
  case (2 input)
  let ?out = "foldl (copyStep sanitize) [] input"
  have d: "distinct (map fst ?out)" by (rule copy_distinct) simp
  have keys: "k \<noteq> ''elementScript'' \<and> k \<noteq> ''__proto__''" if "(k, w) \<in> set ?out" for k w
  proof -
    from that have "k \<in> fst ` set ?out" by force
    then show ?thesis unfolding copy_keys by simp
  qed
  have vals: "sanitize w = w" if "(k, w) \<in> set ?out" for k w
  proof -
    from copy_entries[OF that]
    obtain v where v: "(k, v) \<in> set input" "k \<noteq> ''elementScript''" "w = sanitize v"
      by auto
    from 2[OF v(1) refl v(2)] v show "sanitize w = w" by simp
  qed
  have f: "filter (\<lambda>(k, v). k \<noteq> ''elementScript'' \<and> k \<noteq> ''__proto__'') ?out = ?out"
    unfolding filter_id_conv using keys by blast
  have m: "map (\<lambda>(k, v). (k, sanitize v)) ?out = ?out"
    by (rule map_idI) (use vals in auto)
  have "foldl (copyStep sanitize) [] ?out = ?out"
    using copy_exact[OF d, of "[]" sanitize] by (simp add: f m)
  then show ?case by simp
qed simp_all

text \<open>
  Claim C1. For every JSON value, so in particular for every string, object or array that
  validation lets through, the sanitized value has no object key \<open>elementScript\<close> at any depth:
  the pairs under that key are left out, key and value, the elements of an array are
  sanitized one by one, and every pair that an object keeps carries the sanitized form of
  the value it had.
\<close>

theorem sanitize_drops_elementScript:
  "''elementScript'' \<notin> set (allKeys (sanitize v))
   \<and> sanitize (JArr xs) = JArr (map sanitize xs)
   \<and> ''elementScript'' \<notin> fst ` set (entries (sanitize (JObj kvs)))
   \<and> (\<forall>(k, w) \<in> set (entries (sanitize (JObj kvs))).
         \<exists>u. (k, u) \<in> set kvs \<and> k \<noteq> ''elementScript'' \<and> w = sanitize u)"
proof (intro conjI)
  show "''elementScript'' \<notin> set (allKeys (sanitize v))"
    by (rule sanitize_no_elementScript)
  show "sanitize (JArr xs) = JArr (map sanitize xs)" by simp
  show "''elementScript'' \<notin> fst ` set (entries (sanitize (JObj kvs)))"
    unfolding sanitize_keys by simp
  show "\<forall>(k, w) \<in> set (entries (sanitize (JObj kvs))).
          \<exists>u. (k, u) \<in> set kvs \<and> k \<noteq> ''elementScript'' \<and> w = sanitize u"
    using sanitize_entries by blast
qed

theorem sanitize_drops_elementScript_witness:
  "''elementScript'' \<notin> set (allKeys (sanitize
       (JObj [(''a'', JNum ''1''), (''elementScript'', JStr ''x''),
              (''b'', JArr [JObj [(''elementScript'', JNull), (''c'', JBool True)]])])))
   \<and> sanitize (JObj [(''a'', JNum ''1''), (''elementScript'', JStr ''x''),
              (''b'', JArr [JObj [(''elementScript'', JNull), (''c'', JBool True)]])])
       = JObj [(''a'', JNum ''1''), (''b'', JArr [JObj [(''c'', JBool True)]])]"
  using sanitize_drops_elementScript
    [of "JObj [(''a'', JNum ''1''), (''elementScript'', JStr ''x''),
               (''b'', JArr [JObj [(''elementScript'', JNull), (''c'', JBool True)]])]"
        "[]" "[]"]
  by (simp add: assignProp_def)

text \<open>
  Claim C9. Sanitizing twice gives what sanitizing once gives: the same JSON value, that
  is, the same own properties with the same values in the same order, at every depth.
\<close>

theorem sanitize_idempotent: "sanitize (sanitize v) = sanitize v"
  by (rule sanitize_fixpoint)

theorem sanitize_idempotent_witness:
  "sanitize (sanitize (JArr [JObj [(''elementScript'', JStr ''x''), (''a'', JNum ''1'')], JStr ''s'']))
     = JArr [JObj [(''a'', JNum ''1'')], JStr ''s'']"
  using sanitize_idempotent
    [of "JArr [JObj [(''elementScript'', JStr ''x''), (''a'', JNum ''1'')], JStr ''s'']"]
  by (simp add: assignProp_def)

section \<open>The textual scrub\<close>

text \<open>
  \<open>replace_g pat rep\<close> is \<open>String.prototype.replace\<close> with the global regular expression
  of the literal \<open>pat\<close>: it scans from the left, replaces a match and goes on behind it.
\<close>

lemma includesStr_iff: "includesStr s pat \<longleftrightarrow> (\<exists>u w. s = u @ pat @ w)"
proof (induction s)
  case Nil
  then show ?case by auto
next
  case (Cons c cs)
  show ?case
  proof
    assume "includesStr (c # cs) pat"
    then consider "prefix pat (c # cs)" | "includesStr cs pat" by auto
    then show "\<exists>u w. c # cs = u @ pat @ w"
    proof cases
      case 1
      then obtain w where "c # cs = pat @ w" by (auto simp: prefix_def)
      then have "c # cs = [] @ pat @ w" by simp
      then show ?thesis by blast
    next
      case 2
      with Cons.IH obtain u w where "cs = u @ pat @ w" by blast
      then have "c # cs = (c # u) @ pat @ w" by simp
      then show ?thesis by blast
    qed
  next
    assume "\<exists>u w. c # cs = u @ pat @ w"
    then obtain u w where uw: "c # cs = u @ pat @ w" by blast
    show "includesStr (c # cs) pat"
    proof (cases u)
      case Nil
      with uw have "prefix pat (c # cs)" by (simp add: prefix_def)
      then show ?thesis by simp
    next
      case (Cons d u')
      with uw have "cs = u' @ pat @ w" by simp
      with Cons.IH have "includesStr cs pat" by blast
      then show ?thesis by simp
    qed
  qed
qed

lemma replace_g_match:
  "pat \<noteq> [] \<Longrightarrow> prefix pat (c # cs) \<Longrightarrow>
   replace_g pat rep (c # cs) = rep @ replace_g pat rep (drop (length pat) (c # cs))"
  by simp

lemma replace_g_skip:
  "\<not> (pat \<noteq> [] \<and> prefix pat (c # cs)) \<Longrightarrow>
   replace_g pat rep (c # cs) = c # replace_g pat rep cs"
  by auto

declare replace_g.simps(2) [simp del]

lemma replace_g_sync:
  "x \<notin> set (tl pat) \<Longrightarrow>
   replace_g pat rep (u @ x # w) = replace_g pat rep u @ replace_g pat rep (x # w)"
proof (induction pat rep u rule: replace_g.induct)
  case (1 pat rep)
  then show ?case by simp
next
  case (2 pat rep c cs)
  show ?case
  proof (cases "pat \<noteq> [] \<and> prefix pat ((c # cs) @ x # w)")
    case True
    have len: "length pat \<le> length (c # cs)"
    proof (rule ccontr)
      assume "\<not> length pat \<le> length (c # cs)"
      then have l: "length (c # cs) < length pat" by simp
      from True obtain z where z: "(c # cs) @ x # w = pat @ z" by (auto simp: prefix_def)
      have "pat ! length (c # cs) = ((c # cs) @ x # w) ! length (c # cs)"
        unfolding z using l by (simp add: nth_append)
      also have "\<dots> = x" by (simp only: nth_append_length)
      finally have "pat ! length (c # cs) = x" .
      moreover have "pat ! length (c # cs) \<in> set (tl pat)"
        using l by (cases pat) auto
      ultimately have "x \<in> set (tl pat)" by simp
      with 2(3) show False by contradiction
    qed
    with True have p: "prefix pat (c # cs)"
      by (metis prefix_length_prefix prefixI append.assoc prefix_order.order_refl prefix_append)
    have d: "drop (length pat) ((c # cs) @ x # w) = drop (length pat) (c # cs) @ x # w"
      using len by (simp only: drop_append) simp
    from True p have ih: "replace_g pat rep (drop (length pat) (c # cs) @ x # w) =
        replace_g pat rep (drop (length pat) (c # cs)) @ replace_g pat rep (x # w)"
      using 2(1)[OF _ 2(3)] by blast
    have "replace_g pat rep ((c # cs) @ x # w) =
          rep @ replace_g pat rep (drop (length pat) ((c # cs) @ x # w))"
      using True replace_g_match[of pat c "cs @ x # w" rep] by simp
    also have "\<dots> = rep @ replace_g pat rep (drop (length pat) (c # cs)) @ replace_g pat rep (x # w)"
      unfolding d ih ..
    also have "\<dots> = replace_g pat rep (c # cs) @ replace_g pat rep (x # w)"
      using True p by (simp add: replace_g_match)
    finally show ?thesis .
  next
    case False
    then have np: "\<not> (pat \<noteq> [] \<and> prefix pat (c # cs))"
      using prefix_prefix[of pat "c # cs" "x # w"] by blast
    have "replace_g pat rep (cs @ x # w) = replace_g pat rep cs @ replace_g pat rep (x # w)"
      using 2(2)[OF np 2(3)] .
    with False np show ?thesis
      using replace_g_skip[of pat c "cs @ x # w" rep] by (simp add: replace_g_skip)
  qed
qed


lemma replace_g_prefix_reflect:
  "rep \<noteq> [] \<Longrightarrow> hd rep \<notin> set q \<Longrightarrow> prefix q (replace_g pat rep t) \<Longrightarrow> prefix q t"
proof (induction q arbitrary: t)
  case Nil
  then show ?case by simp
next
  case (Cons y q)
  show ?case
  proof (cases t)
    case Nil
    with Cons.prems show ?thesis by simp
  next
    case (Cons c cs)
    show ?thesis
    proof (cases "pat \<noteq> [] \<and> prefix pat (c # cs)")
      case True
      then have "replace_g pat rep t = rep @ replace_g pat rep (drop (length pat) (c # cs))"
        unfolding Cons by (simp add: replace_g_match)
      with Cons.prems(1,3) have "y = hd rep" by (cases rep) auto
      with Cons.prems(2) show ?thesis by simp
    next
      case False
      then have "replace_g pat rep t = c # replace_g pat rep cs"
        unfolding Cons by (rule replace_g_skip)
      with Cons.prems(3) have y: "y = c" and p: "prefix q (replace_g pat rep cs)" by simp_all
      from Cons.prems(2) have "hd rep \<notin> set q" by simp
      from Cons.IH[OF Cons.prems(1) this p] y show ?thesis unfolding Cons by simp
    qed
  qed
qed

lemma prefix_Cons_tail: "prefix (x # q) (c # r) \<Longrightarrow> prefix q r"
  by simp

lemma includesStr_skip_prefix:
  "x \<notin> set a \<Longrightarrow> includesStr (a @ s) (x # q) = includesStr s (x # q)"
  by (induction a) auto

lemma includesStr_drop: "includesStr (drop n s) pat \<Longrightarrow> pat \<noteq> [] \<Longrightarrow> includesStr s pat"
proof -
  assume a: "includesStr (drop n s) pat"
  then obtain u w where "drop n s = u @ pat @ w" unfolding includesStr_iff by blast
  then have "s = (take n s @ u) @ pat @ w" by (metis append_take_drop_id append.assoc)
  then show ?thesis unfolding includesStr_iff by blast
qed

lemma replace_g_keeps_absent:
  "rep \<noteq> [] \<Longrightarrow> hd rep \<notin> set q \<Longrightarrow> x \<notin> set rep \<Longrightarrow>
   \<not> includesStr s (x # q) \<Longrightarrow> \<not> includesStr (replace_g pat rep s) (x # q)"
proof (induction pat rep s rule: replace_g.induct)
  case (1 pat rep)
  then show ?case by simp
next
  case (2 pat rep c cs)
  show ?case
  proof (cases "pat \<noteq> [] \<and> prefix pat (c # cs)")
    case True
    have "\<not> includesStr (drop (length pat) (c # cs)) (x # q)"
      using 2(6) includesStr_drop by blast
    from 2(1)[OF True 2(3,4,5) this]
    have "\<not> includesStr (rep @ replace_g pat rep (drop (length pat) (c # cs))) (x # q)"
      using includesStr_skip_prefix[OF 2(5)] by simp
    with True show ?thesis by (simp add: replace_g_match)
  next
    case False
    from 2(6) have np: "\<not> prefix (x # q) (c # cs)" and ni: "\<not> includesStr cs (x # q)" by simp_all
    have ih: "\<not> includesStr (replace_g pat rep cs) (x # q)"
      using 2(2)[OF False 2(3,4,5) ni] .
    have "\<not> prefix (x # q) (c # replace_g pat rep cs)"
    proof
      assume a: "prefix (x # q) (c # replace_g pat rep cs)"
      then have xc: "x = c" by simp
      from a have "prefix q (replace_g pat rep cs)" by (rule prefix_Cons_tail)
      then have "prefix q cs" by (rule replace_g_prefix_reflect[OF 2(3,4)])
      with xc have "prefix (x # q) (c # cs)" by simp
      with np show False by contradiction
    qed
    with ih False show ?thesis by (simp add: replace_g_skip)
  qed
qed

lemma replace_g_removes:
  "rep \<noteq> [] \<Longrightarrow> hd rep \<notin> set q \<Longrightarrow> x \<notin> set rep \<Longrightarrow>
   \<not> includesStr (replace_g (x # q) rep s) (x # q)"
proof (induction "x # q" rep s rule: replace_g.induct)
  case (1 rep)
  then show ?case by simp
next
  case (2 rep c cs)
  show ?case
  proof (cases "prefix (x # q) (c # cs)")
    case True
    from 2(1)[OF _ 2(3,4,5)] True
    have "\<not> includesStr (replace_g (x # q) rep (drop (length (x # q)) (c # cs))) (x # q)" by simp
    then have "\<not> includesStr (rep @ replace_g (x # q) rep (drop (length (x # q)) (c # cs))) (x # q)"
      using includesStr_skip_prefix[OF 2(5)] by simp
    with True show ?thesis by (simp add: replace_g_match)
  next
    case False
    then have ih: "\<not> includesStr (replace_g (x # q) rep cs) (x # q)"
      using 2(2)[OF _ 2(3,4,5)] by simp
    have "\<not> prefix (x # q) (c # replace_g (x # q) rep cs)"
    proof
      assume a: "prefix (x # q) (c # replace_g (x # q) rep cs)"
      then have xc: "x = c" by simp
      from a have "prefix q (replace_g (x # q) rep cs)" by (rule prefix_Cons_tail)
      then have "prefix q cs" by (rule replace_g_prefix_reflect[OF 2(3,4)])
      with xc have "prefix (x # q) (c # cs)" by simp
      with False show False by contradiction
    qed
    with ih False show ?thesis by (simp add: replace_g_skip)
  qed
qed

lemma replace_g_absent: "\<not> includesStr s pat \<Longrightarrow> replace_g pat rep s = s"
proof (induction s)
  case Nil
  then show ?case by simp
next
  case (Cons c cs)
  then show ?case by (simp add: replace_g_skip)
qed

lemma replace_g_length:
  "length pat \<le> length rep \<Longrightarrow> length s \<le> length (replace_g pat rep s)"
proof (induction pat rep s rule: replace_g.induct)
  case (1 pat rep)
  then show ?case by simp
next
  case (2 pat rep c cs)
  show ?case
  proof (cases "pat \<noteq> [] \<and> prefix pat (c # cs)")
    case True
    then have "length pat \<le> length (c # cs)" by (auto dest: prefix_length_le)
    with 2(1)[OF True 2(3)] 2(3) True show ?thesis by (simp add: replace_g_match)
  next
    case False
    with 2(2)[OF False 2(3)] show ?thesis by (simp add: replace_g_skip)
  qed
qed

lemma replace_g_skip_chars:
  "x \<notin> set a \<Longrightarrow> replace_g (x # q) rep (a @ z) = a @ replace_g (x # q) rep z"
  by (induction a) (simp_all add: replace_g_skip)

lemma open_hom:
  "replace_g ''<script>'' ''&lt;script&gt;'' (u @ ''<script>'' @ w) =
   replace_g ''<script>'' ''&lt;script&gt;'' u @ ''&lt;script&gt;''
     @ replace_g ''<script>'' ''&lt;script&gt;'' w"
proof -
  have "replace_g ''<script>'' ''&lt;script&gt;'' (u @ CHR ''<'' # (''script>'' @ w)) =
        replace_g ''<script>'' ''&lt;script&gt;'' u
          @ replace_g ''<script>'' ''&lt;script&gt;'' (CHR ''<'' # (''script>'' @ w))"
    by (rule replace_g_sync) simp
  then show ?thesis by (simp add: replace_g_match)
qed

lemma open_past_close:
  "replace_g ''<script>'' ''&lt;script&gt;'' (u @ ''</script>'' @ w) =
   replace_g ''<script>'' ''&lt;script&gt;'' u @ ''</script>''
     @ replace_g ''<script>'' ''&lt;script&gt;'' w"
proof -
  have "replace_g ''<script>'' ''&lt;script&gt;'' (u @ CHR ''<'' # (''/script>'' @ w)) =
        replace_g ''<script>'' ''&lt;script&gt;'' u
          @ replace_g ''<script>'' ''&lt;script&gt;'' (CHR ''<'' # (''/script>'' @ w))"
    by (rule replace_g_sync) simp
  moreover have "replace_g ''<script>'' ''&lt;script&gt;'' (''/script>'' @ w) =
        ''/script>'' @ replace_g ''<script>'' ''&lt;script&gt;'' w"
    by (rule replace_g_skip_chars) simp
  ultimately show ?thesis by (simp add: replace_g_skip)
qed

lemma close_hom:
  "replace_g ''</script>'' ''&lt;/script&gt;'' (u @ ''</script>'' @ w) =
   replace_g ''</script>'' ''&lt;/script&gt;'' u @ ''&lt;/script&gt;''
     @ replace_g ''</script>'' ''&lt;/script&gt;'' w"
proof -
  have "replace_g ''</script>'' ''&lt;/script&gt;'' (u @ CHR ''<'' # (''/script>'' @ w)) =
        replace_g ''</script>'' ''&lt;/script&gt;'' u
          @ replace_g ''</script>'' ''&lt;/script&gt;'' (CHR ''<'' # (''/script>'' @ w))"
    by (rule replace_g_sync) simp
  then show ?thesis by (simp add: replace_g_match)
qed

lemma close_past_openRep:
  "replace_g ''</script>'' ''&lt;/script&gt;'' (u @ ''&lt;script&gt;'' @ w) =
   replace_g ''</script>'' ''&lt;/script&gt;'' u @ ''&lt;script&gt;''
     @ replace_g ''</script>'' ''&lt;/script&gt;'' w"
proof -
  have "replace_g ''</script>'' ''&lt;/script&gt;'' (u @ CHR ''&'' # (''lt;script&gt;'' @ w)) =
        replace_g ''</script>'' ''&lt;/script&gt;'' u
          @ replace_g ''</script>'' ''&lt;/script&gt;'' (CHR ''&'' # (''lt;script&gt;'' @ w))"
    by (rule replace_g_sync) simp
  moreover have "replace_g ''</script>'' ''&lt;/script&gt;'' (''&lt;script&gt;'' @ w) =
        ''&lt;script&gt;'' @ replace_g ''</script>'' ''&lt;/script&gt;'' w"
    by (rule replace_g_skip_chars) simp
  ultimately show ?thesis by simp
qed

lemma scrub_open: "scrub (u @ ''<script>'' @ w) = scrub u @ ''&lt;script&gt;'' @ scrub w"
  unfolding scrub_def open_hom close_past_openRep ..

lemma scrub_close: "scrub (u @ ''</script>'' @ w) = scrub u @ ''&lt;/script&gt;'' @ scrub w"
  unfolding scrub_def open_past_close close_hom ..

lemma scrub_no_close: "\<not> includesStr (scrub t) ''</script>''"
  unfolding scrub_def by (rule replace_g_removes) simp_all

lemma scrub_no_open: "\<not> includesStr (scrub t) ''<script>''"
  unfolding scrub_def
proof (rule replace_g_keeps_absent)
  show "\<not> includesStr (replace_g ''<script>'' ''&lt;script&gt;'' t) ''<script>''"
    by (rule replace_g_removes) simp_all
qed simp_all

lemma scrub_absent:
  "\<not> includesStr t ''<script>'' \<Longrightarrow> \<not> includesStr t ''</script>'' \<Longrightarrow> scrub t = t"
  unfolding scrub_def by (simp add: replace_g_absent)

lemma scrub_length: "length t \<le> length (scrub t)"
proof -
  have "length t \<le> length (replace_g ''<script>'' ''&lt;script&gt;'' t)"
    by (rule replace_g_length) simp
  also have "\<dots> \<le> length (scrub t)"
    unfolding scrub_def by (rule replace_g_length) simp
  finally show ?thesis .
qed

lemma contentForDb_scrub: "contentForDb nts v = scrub (JSON_stringify nts v)"
  by (simp add: contentForDb_def scrub_def)


lemma quote_plain:
  "\<forall>c \<in> set m. quoteChar c = [c] \<Longrightarrow> concat (map quoteChar m) = m"
  by (induction m) simp_all

lemma includesStr_append: "includesStr s m \<Longrightarrow> includesStr (a @ s @ b) m"
proof -
  assume "includesStr s m"
  then obtain u w where "s = u @ m @ w" unfolding includesStr_iff by blast
  then have "a @ s @ b = (a @ u) @ m @ (w @ b)" by simp
  then show ?thesis unfolding includesStr_iff by blast
qed

lemma QuoteJSONString_includes:
  assumes "\<forall>c \<in> set m. quoteChar c = [c]" and "includesStr s m"
  shows "includesStr (QuoteJSONString s) m"
proof -
  from assms(2) obtain u w where s: "s = u @ m @ w" unfolding includesStr_iff by blast
  have "QuoteJSONString s =
        (CHR 0x22 # concat (map quoteChar u)) @ m @ (concat (map quoteChar w) @ [CHR 0x22])"
    by (simp add: QuoteJSONString_def s quote_plain[OF assms(1)])
  then show ?thesis unfolding includesStr_iff by blast
qed

lemma joinComma_member: "x \<in> set xs \<Longrightarrow> \<exists>a b. joinComma xs = a @ x @ b"
proof (induction xs rule: joinComma.induct)
  case 1
  then show ?case by simp
next
  case (2 y)
  then have "joinComma [y] = [] @ x @ []" by simp
  then show ?case by blast
next
  case (3 y z zs)
  show ?case
  proof (cases "x = y")
    case True
    then have "joinComma (y # z # zs) = [] @ x @ ('','' @ joinComma (z # zs))" by simp
    then show ?thesis by blast
  next
    case False
    with 3 obtain a b where "joinComma (z # zs) = a @ x @ b" by auto
    then have "joinComma (y # z # zs) = (y @ '','' @ a) @ x @ b" by simp
    then show ?thesis by blast
  qed
qed

lemma joinComma_includes:
  "x \<in> set xs \<Longrightarrow> includesStr x m \<Longrightarrow> includesStr (joinComma xs) m"
proof -
  assume "x \<in> set xs" and i: "includesStr x m"
  then obtain a b where "joinComma xs = a @ x @ b" using joinComma_member by blast
  with includesStr_append[OF i, of a b] show ?thesis by simp
qed

lemma stringify_includes_leaf:
  assumes m: "\<forall>c \<in> set m. quoteChar c = [c]"
  shows "s \<in> set (strings v) \<Longrightarrow> includesStr s m \<Longrightarrow> includesStr (JSON_stringify nts v) m"
proof (induction v)
  case (JStr t)
  then show ?case using QuoteJSONString_includes[OF m] by simp
next
  case (JArr xs)
  from JArr.prems(1) obtain x where x: "x \<in> set xs" "s \<in> set (strings x)" by auto
  from JArr.IH[OF x(1) x(2) JArr.prems(2)] x(1)
  have "includesStr (joinComma (map (JSON_stringify nts) xs)) m"
    by (intro joinComma_includes[of "JSON_stringify nts x"]) simp_all
  from includesStr_append[OF this, of "''[''" "'']''"] show ?case by simp
next
  case (JObj kvs)
  from JObj.prems(1) obtain k x where x: "(k, x) \<in> set kvs" "s \<in> set (strings x)" by auto
  then have "x \<in> Basic_BNFs.snds (k, x)" by simp
  from JObj.IH[OF x(1) this x(2) JObj.prems(2)]
  have "includesStr (QuoteJSONString k @ '':'' @ JSON_stringify nts x) m"
    using includesStr_append[of "JSON_stringify nts x" m "QuoteJSONString k @ '':''" "[]"] by simp
  with x(1) have "includesStr
      (joinComma (map (\<lambda>(k, v). QuoteJSONString k @ '':'' @ JSON_stringify nts v) kvs)) m"
    by (intro joinComma_includes[of "QuoteJSONString k @ '':'' @ JSON_stringify nts x"]) force+
  from includesStr_append[OF this, of "''{''" "''}''"] show ?case by simp
qed simp_all

lemma open_plain: "\<forall>c \<in> set ''<script>''. quoteChar c = [c]"
  by (simp add: quoteChar_def)

lemma close_plain: "\<forall>c \<in> set ''</script>''. quoteChar c = [c]"
  by (simp add: quoteChar_def)

text \<open>
  Claim C2. In the stored text every literal \<open><script>\<close> of the serialised text has become
  \<open>&lt;script&gt;\<close> and every literal \<open></script>\<close> has become \<open>&lt;/script&gt;\<close>: neither
  marker occurs in the stored text, the text around an occurrence is scrubbed on its own, and
  a string leaf of the sanitized value that contains a marker puts the escaped form into the
  stored text.
\<close>

theorem scrub_replaces_script_markers:
  "\<not> includesStr (contentForDb nts v) ''<script>''
   \<and> \<not> includesStr (contentForDb nts v) ''</script>''
   \<and> (JSON_stringify nts v = a @ ''<script>'' @ b \<longrightarrow>
        contentForDb nts v = scrub a @ ''&lt;script&gt;'' @ scrub b)
   \<and> (JSON_stringify nts v = a @ ''</script>'' @ b \<longrightarrow>
        contentForDb nts v = scrub a @ ''&lt;/script&gt;'' @ scrub b)
   \<and> (s \<in> set (strings v) \<and> includesStr s ''<script>'' \<longrightarrow>
        includesStr (contentForDb nts v) ''&lt;script&gt;'')
   \<and> (s \<in> set (strings v) \<and> includesStr s ''</script>'' \<longrightarrow>
        includesStr (contentForDb nts v) ''&lt;/script&gt;'')"
proof (intro conjI impI)
  show "\<not> includesStr (contentForDb nts v) ''<script>''"
    unfolding contentForDb_scrub by (rule scrub_no_open)
  show "\<not> includesStr (contentForDb nts v) ''</script>''"
    unfolding contentForDb_scrub by (rule scrub_no_close)
  show "contentForDb nts v = scrub a @ ''&lt;script&gt;'' @ scrub b"
    if "JSON_stringify nts v = a @ ''<script>'' @ b"
    unfolding contentForDb_scrub that by (rule scrub_open)
  show "contentForDb nts v = scrub a @ ''&lt;/script&gt;'' @ scrub b"
    if "JSON_stringify nts v = a @ ''</script>'' @ b"
    unfolding contentForDb_scrub that by (rule scrub_close)
  show "includesStr (contentForDb nts v) ''&lt;script&gt;''"
    if h: "s \<in> set (strings v) \<and> includesStr s ''<script>''"
  proof -
    from h have "includesStr (JSON_stringify nts v) ''<script>''"
      using stringify_includes_leaf[OF open_plain] by blast
    then obtain u w where "JSON_stringify nts v = u @ ''<script>'' @ w"
      unfolding includesStr_iff by blast
    then have "contentForDb nts v = scrub u @ ''&lt;script&gt;'' @ scrub w"
      unfolding contentForDb_scrub by (simp only: scrub_open)
    then show ?thesis unfolding includesStr_iff by blast
  qed
  show "includesStr (contentForDb nts v) ''&lt;/script&gt;''"
    if h: "s \<in> set (strings v) \<and> includesStr s ''</script>''"
  proof -
    from h have "includesStr (JSON_stringify nts v) ''</script>''"
      using stringify_includes_leaf[OF close_plain] by blast
    then obtain u w where "JSON_stringify nts v = u @ ''</script>'' @ w"
      unfolding includesStr_iff by blast
    then have "contentForDb nts v = scrub u @ ''&lt;/script&gt;'' @ scrub w"
      unfolding contentForDb_scrub by (simp only: scrub_close)
    then show ?thesis unfolding includesStr_iff by blast
  qed
qed

theorem scrub_replaces_script_markers_witness:
  "JSON_stringify (\<lambda>t. t) (JStr ''<script>alert(1)</script>'')
      = [CHR 0x22] @ ''<script>'' @ (''alert(1)</script>'' @ [CHR 0x22])
   \<and> ''<script>alert(1)</script>'' \<in> set (strings (JStr ''<script>alert(1)</script>'' :: string json))
   \<and> includesStr ''<script>alert(1)</script>'' ''<script>''
   \<and> includesStr ''<script>alert(1)</script>'' ''</script>''
   \<and> contentForDb (\<lambda>t. t) (JStr ''<script>alert(1)</script>'')
      = [CHR 0x22] @ ''&lt;script&gt;alert(1)&lt;/script&gt;'' @ [CHR 0x22]
   \<and> includesStr (contentForDb (\<lambda>t. t) (JStr ''<script>alert(1)</script>'')) ''&lt;script&gt;''
   \<and> includesStr (contentForDb (\<lambda>t. t) (JStr ''<script>alert(1)</script>'')) ''&lt;/script&gt;''
   \<and> \<not> includesStr (contentForDb (\<lambda>t. t) (JStr ''<script>alert(1)</script>'')) ''<script>''
   \<and> \<not> includesStr (contentForDb (\<lambda>t. t) (JStr ''<script>alert(1)</script>'')) ''</script>''"
  using scrub_replaces_script_markers
    [of "\<lambda>t. t" "JStr ''<script>alert(1)</script>''" "[CHR 0x22]"
        "''alert(1)</script>'' @ [CHR 0x22]" "''<script>alert(1)</script>''"]
  by (simp add: contentForDb_def QuoteJSONString_def quoteChar_def scrub_def replace_g.simps)


section \<open>The handler\<close>

lemmas handler_defs =
  handle_def handle_try_def catchAll_def readBack_def respond_def
  handle_orm_def handle_orm_try_def
lemmas schema_defs =
  RequestSchema_parse_def idIssues_def contentIssues_def idOf_def contentOf_def
  idSchema_def contentSchema_def
lemmas table_defs = tableEnv_def tableInsert_def tableFirst_def

lemma includesStr_absent_char: "x \<notin> set t \<Longrightarrow> \<not> includesStr t (x # q)"
  using includesStr_skip_prefix[of x t "[]" q] by simp

lemma contentForDb_plain_string:
  assumes "\<forall>c \<in> set s. quoteChar c = [c]" and "CHR ''<'' \<notin> set s"
  shows "contentForDb nts (JStr s) = CHR 0x22 # s @ [CHR 0x22]"
proof -
  have q: "JSON_stringify nts (JStr s) = CHR 0x22 # s @ [CHR 0x22]"
    by (simp add: QuoteJSONString_def quote_plain[OF assms(1)])
  have "CHR ''<'' \<notin> set (CHR 0x22 # s @ [CHR 0x22])" using assms(2) by simp
  then have "\<not> includesStr (CHR 0x22 # s @ [CHR 0x22]) ''<script>''"
        and "\<not> includesStr (CHR 0x22 # s @ [CHR 0x22]) ''</script>''"
    by (rule includesStr_absent_char)+
  then show ?thesis unfolding contentForDb_scrub q by (rule scrub_absent)
qed

lemma contentForDb_replicate_a:
  "contentForDb nts (JStr (replicate n (CHR ''a''))) =
     CHR 0x22 # replicate n (CHR ''a'') @ [CHR 0x22]"
  by (rule contentForDb_plain_string) (simp_all add: quoteChar_def)

text \<open>
  Claim C3. The size gate looks at the byte length of the sanitized and scrubbed text, the very
  text that the insert would store. Above 900 * 1024 bytes the handler answers 413 with the
  body \<open>{error: "Payload too large", details: "content exceeds size limit"}\<close> and calls the
  store not at all; at 900 * 1024 bytes or below the first thing it does is the insert of that
  text, and its answer is not 413.
\<close>

theorem size_gate:
  fixes env :: "('n, 'db) env"
  defines "c \<equiv> \<lambda>content. contentForDb (numberToString env) (sanitize content)"
  assumes "RequestSchema_parse body = Inr (ident, content)"
  shows "maxBytes = 900 * 1024
    \<and> (maxBytes < blobSize (c content) \<longrightarrow>
         handle env (Inr body) db =
           (respond 413 (Failure ''Payload too large'' (Text ''content exceeds size limit'')),
            [], db))
    \<and> (blobSize (c content) \<le> maxBytes \<longrightarrow>
         (\<exists>resp calls db'.
            handle env (Inr body) db =
              (resp, Insert (case ident of Some i \<Rightarrow> i | None \<Rightarrow> randomUUID env) (c content) # calls, db')
            \<and> status resp \<noteq> 413))"
proof (intro conjI impI)
  show "maxBytes = 900 * 1024" by (simp add: maxBytes_def)
  show "handle env (Inr body) db =
           (respond 413 (Failure ''Payload too large'' (Text ''content exceeds size limit'')),
            [], db)" if "maxBytes < blobSize (c content)"
    using that assms by (simp add: handler_defs Let_def)
  show "\<exists>resp calls db'.
            handle env (Inr body) db =
              (resp, Insert (case ident of Some i \<Rightarrow> i | None \<Rightarrow> randomUUID env) (c content) # calls, db')
            \<and> status resp \<noteq> 413" if "blobSize (c content) \<le> maxBytes"
    using that assms
    by (auto simp add: handler_defs Let_def split: sum.splits option.splits)
qed


lemma parse_content_only:
  "RequestSchema_parse (JObj [(''content'', JStr s)]) = Inr (None, JStr s)"
  by (simp add: schema_defs)

theorem size_gate_witness:
  "blobSize (contentForDb (\<lambda>t. t) (sanitize (JStr (replicate 921598 (CHR ''a''))))) = maxBytes
   \<and> (\<exists>resp calls db'.
         handle (tableEnv ''123e4567-e89b-12d3-a456-426614174000'')
           (Inr (JObj [(''content'', JStr (replicate 921598 (CHR ''a'')))])) Map.empty =
           (resp, Insert ''123e4567-e89b-12d3-a456-426614174000''
                    (CHR 0x22 # replicate 921598 (CHR ''a'') @ [CHR 0x22]) # calls, db')
          \<and> status resp \<noteq> 413)
   \<and> blobSize (contentForDb (\<lambda>t. t) (sanitize (JStr (replicate 921599 (CHR ''a''))))) = maxBytes + 1
   \<and> handle (tableEnv ''123e4567-e89b-12d3-a456-426614174000'')
        (Inr (JObj [(''content'', JStr (replicate 921599 (CHR ''a'')))])) Map.empty =
        (respond 413 (Failure ''Payload too large'' (Text ''content exceeds size limit'')),
         [], Map.empty)"
proof -
  let ?env = "tableEnv ''123e4567-e89b-12d3-a456-426614174000''"
  have nts: "numberToString ?env = (\<lambda>t. t)" and u: "randomUUID ?env = ''123e4567-e89b-12d3-a456-426614174000''"
    by (simp_all add: tableEnv_def)
  have at: "blobSize (contentForDb (\<lambda>t. t) (sanitize (JStr (replicate 921598 (CHR ''a''))))) = maxBytes"
    by (simp add: contentForDb_replicate_a blobSize_def maxBytes_def)
  have over: "blobSize (contentForDb (\<lambda>t. t) (sanitize (JStr (replicate 921599 (CHR ''a''))))) = maxBytes + 1"
    by (simp add: contentForDb_replicate_a blobSize_def maxBytes_def)
  from size_gate[OF parse_content_only, of ?env "replicate 921598 (CHR ''a'')" Map.empty] at
  have 1: "\<exists>resp calls db'.
         handle ?env (Inr (JObj [(''content'', JStr (replicate 921598 (CHR ''a'')))])) Map.empty =
           (resp, Insert ''123e4567-e89b-12d3-a456-426614174000''
                    (CHR 0x22 # replicate 921598 (CHR ''a'') @ [CHR 0x22]) # calls, db')
          \<and> status resp \<noteq> 413"
    by (simp add: nts u contentForDb_replicate_a)
  from size_gate[OF parse_content_only, of ?env "replicate 921599 (CHR ''a'')" Map.empty] over
  have 2: "handle ?env (Inr (JObj [(''content'', JStr (replicate 921599 (CHR ''a'')))])) Map.empty =
        (respond 413 (Failure ''Payload too large'' (Text ''content exceeds size limit'')),
         [], Map.empty)"
    by (simp add: nts contentForDb_replicate_a)
  from at 1 over 2 show ?thesis by blast
qed


lemma matchesAt_iff:
  "matchesAt p s \<longleftrightarrow> (\<exists>w z. s = w @ z \<and> map canonicalize w = map canonicalize p)"
proof (induction p s rule: matchesAt.induct)
  case (1 s)
  then show ?case by simp
next
  case (2 p ps)
  then show ?case by simp
next
  case (3 p ps c cs)
  show ?case
  proof
    assume "matchesAt (p # ps) (c # cs)"
    then have pc: "canonicalize p = canonicalize c" and "matchesAt ps cs" by simp_all
    with 3 obtain w z where "cs = w @ z" "map canonicalize w = map canonicalize ps" by blast
    with pc have "c # cs = (c # w) @ z \<and> map canonicalize (c # w) = map canonicalize (p # ps)"
      by simp
    then show "\<exists>w z. c # cs = w @ z \<and> map canonicalize w = map canonicalize (p # ps)" by blast
  next
    assume "\<exists>w z. c # cs = w @ z \<and> map canonicalize w = map canonicalize (p # ps)"
    then obtain w z where wz: "c # cs = w @ z" "map canonicalize w = map canonicalize (p # ps)"
      by blast
    from wz(2) obtain d w' where w: "w = d # w'" by (cases w) auto
    with wz have "canonicalize p = canonicalize c" "cs = w' @ z"
                 "map canonicalize w' = map canonicalize ps" by simp_all
    with 3 show "matchesAt (p # ps) (c # cs)" by auto
  qed
qed

lemma regexSearch_iff: "regexSearch m s \<longleftrightarrow> (\<exists>u t. s = u @ t \<and> m t)"
proof (induction s)
  case Nil
  then show ?case by simp
next
  case (Cons c cs)
  show ?case
  proof
    assume "regexSearch m (c # cs)"
    then consider "m (c # cs)" | "regexSearch m cs" by auto
    then show "\<exists>u t. c # cs = u @ t \<and> m t"
    proof cases
      case 1
      then have "c # cs = [] @ (c # cs) \<and> m (c # cs)" by simp
      then show ?thesis by blast
    next
      case 2
      with Cons obtain u t where "cs = u @ t" "m t" by blast
      then have "c # cs = (c # u) @ t \<and> m t" by simp
      then show ?thesis by blast
    qed
  next
    assume "\<exists>u t. c # cs = u @ t \<and> m t"
    then obtain u t where ut: "c # cs = u @ t" "m t" by blast
    show "regexSearch m (c # cs)"
    proof (cases u)
      case Nil
      with ut have "m (c # cs)" by simp
      then show ?thesis by simp
    next
      case (Cons d u')
      with ut have "cs = u' @ t" by simp
      with ut(2) Cons.IH show ?thesis by auto
    qed
  qed
qed

lemma uniqueRegexTest_iff:
  "uniqueRegexTest message \<longleftrightarrow>
     (\<exists>u w z. message = u @ w @ z
        \<and> map canonicalize w = map canonicalize ''unique constraint failed'')"
proof -
  have same: "map canonicalize ''UNIQUE constraint failed'' =
              map canonicalize ''unique constraint failed''"
    by code_simp
  show ?thesis
    unfolding uniqueRegexTest_def regexSearch_iff matchesAt_iff same by blast
qed

text \<open>
  Claim C4. When the insert fails with a message that contains \<open>unique constraint failed\<close> in any
  mix of upper and lower case, the handler answers 409 with
  \<open>{error: "Duplicate id", details: "Template with this id already exists"}\<close>; when it fails with
  any other message, the handler answers 500 with that message. Either way the insert is the only
  call to the store: nothing is retried and no other identifier is tried.
\<close>

theorem insert_failure_classified:
  fixes env :: "('n, 'db) env"
  defines "c \<equiv> \<lambda>content. contentForDb (numberToString env) (sanitize content)"
      and "tid \<equiv> \<lambda>ident. case ident of Some i \<Rightarrow> i | None \<Rightarrow> randomUUID env"
  assumes "RequestSchema_parse body = Inr (ident, content)"
      and "blobSize (c content) \<le> maxBytes"
      and "prepared_insert env (tid ident) (c content) db = Inl message"
  shows "(uniqueRegexTest message \<longleftrightarrow>
            (\<exists>u w z. message = u @ w @ z
               \<and> map canonicalize w = map canonicalize ''unique constraint failed''))
    \<and> (uniqueRegexTest message \<longrightarrow>
          handle env (Inr body) db =
            (respond 409 (Failure ''Duplicate id'' (Text ''Template with this id already exists'')),
             [Insert (tid ident) (c content)], db))
    \<and> (\<not> uniqueRegexTest message \<longrightarrow>
          handle env (Inr body) db =
            (respond 500 (Failure ''Internal server error'' (Text message)),
             [Insert (tid ident) (c content)], db))"
proof (intro conjI impI)
  show "uniqueRegexTest message \<longleftrightarrow>
            (\<exists>u w z. message = u @ w @ z
               \<and> map canonicalize w = map canonicalize ''unique constraint failed'')"
    by (rule uniqueRegexTest_iff)
  show "handle env (Inr body) db =
            (respond 409 (Failure ''Duplicate id'' (Text ''Template with this id already exists'')),
             [Insert (tid ident) (c content)], db)" if "uniqueRegexTest message"
    using that assms by (simp add: handler_defs Let_def)
  show "handle env (Inr body) db =
            (respond 500 (Failure ''Internal server error'' (Text message)),
             [Insert (tid ident) (c content)], db)" if "\<not> uniqueRegexTest message"
    using that assms by (simp add: handler_defs Let_def)
qed

lemma unique_message_matches:
  "uniqueRegexTest ''D1_ERROR: UNIQUE constraint failed: templates_table.id: SQLITE_CONSTRAINT''"
  by code_simp

lemma other_message_differs:
  "\<not> uniqueRegexTest ''D1_ERROR: no such table: templates_table: SQLITE_ERROR''"
  by code_simp


lemma sample_uuid: "isUuid ''123e4567-e89b-12d3-a456-426614174000''"
  by code_simp

lemma parse_id_content:
  "isUuid i \<Longrightarrow>
   RequestSchema_parse (JObj [(''id'', JStr i), (''content'', JStr s)]) = Inr (Some i, JStr s)"
  by (simp add: schema_defs)

lemma contentForDb_x: "contentForDb nts (JStr ''x'') = [CHR 0x22, CHR ''x'', CHR 0x22]"
  using contentForDb_plain_string[of "''x''" nts] by (simp add: quoteChar_def)

theorem insert_failure_classified_witness:
  "handle (tableEnv ''00000000-0000-4000-8000-000000000000'')
     (Inr (JObj [(''id'', JStr ''123e4567-e89b-12d3-a456-426614174000''), (''content'', JStr ''x'')]))
     [''123e4567-e89b-12d3-a456-426614174000'' \<mapsto> ''old'']
   = (respond 409 (Failure ''Duplicate id'' (Text ''Template with this id already exists'')),
      [Insert ''123e4567-e89b-12d3-a456-426614174000'' [CHR 0x22, CHR ''x'', CHR 0x22]],
      [''123e4567-e89b-12d3-a456-426614174000'' \<mapsto> ''old''])
   \<and> handle ((tableEnv ''00000000-0000-4000-8000-000000000000'')
               \<lparr>prepared_insert :=
                  \<lambda>i c t. Inl ''D1_ERROR: no such table: templates_table: SQLITE_ERROR''\<rparr>)
     (Inr (JObj [(''id'', JStr ''123e4567-e89b-12d3-a456-426614174000''), (''content'', JStr ''x'')]))
     Map.empty
   = (respond 500 (Failure ''Internal server error''
                     (Text ''D1_ERROR: no such table: templates_table: SQLITE_ERROR'')),
      [Insert ''123e4567-e89b-12d3-a456-426614174000'' [CHR 0x22, CHR ''x'', CHR 0x22]],
      Map.empty)"
proof -
  let ?id = "''123e4567-e89b-12d3-a456-426614174000''"
  let ?env = "tableEnv ''00000000-0000-4000-8000-000000000000''"
  let ?broken = "?env\<lparr>prepared_insert :=
                  \<lambda>i c t. Inl ''D1_ERROR: no such table: templates_table: SQLITE_ERROR''\<rparr>"
  let ?body = "JObj [(''id'', JStr ?id), (''content'', JStr ''x'')] :: string json"
  have p: "RequestSchema_parse ?body = Inr (Some ?id, JStr ''x'')"
    by (rule parse_id_content[OF sample_uuid])
  have small: "blobSize [CHR 0x22, CHR ''x'', CHR 0x22] \<le> maxBytes"
    by (simp add: blobSize_def maxBytes_def)
  have dup: "prepared_insert ?env ?id [CHR 0x22, CHR ''x'', CHR 0x22] [?id \<mapsto> ''old'']
      = Inl ''D1_ERROR: UNIQUE constraint failed: templates_table.id: SQLITE_CONSTRAINT''"
    by (simp add: table_defs)
  have other: "prepared_insert ?broken ?id [CHR 0x22, CHR ''x'', CHR 0x22] Map.empty
      = Inl ''D1_ERROR: no such table: templates_table: SQLITE_ERROR''"
    by simp
  have 1: "handle ?env (Inr ?body) [?id \<mapsto> ''old'']
     = (respond 409 (Failure ''Duplicate id'' (Text ''Template with this id already exists'')),
        [Insert ?id [CHR 0x22, CHR ''x'', CHR 0x22]], [?id \<mapsto> ''old''])"
    using insert_failure_classified[OF p, of ?env "[?id \<mapsto> ''old'']"
        "''D1_ERROR: UNIQUE constraint failed: templates_table.id: SQLITE_CONSTRAINT''"]
      small dup unique_message_matches
    by (simp add: contentForDb_x)
  have 2: "handle ?broken (Inr ?body) Map.empty
     = (respond 500 (Failure ''Internal server error''
                       (Text ''D1_ERROR: no such table: templates_table: SQLITE_ERROR'')),
        [Insert ?id [CHR 0x22, CHR ''x'', CHR 0x22]], Map.empty)"
    using insert_failure_classified[OF p, of ?broken Map.empty
        "''D1_ERROR: no such table: templates_table: SQLITE_ERROR''"]
      small other other_message_differs
    by (simp add: contentForDb_x)
  from 1 2 show ?thesis by blast
qed


lemma list_all_segment:
  "k + n \<le> length s \<Longrightarrow>
   list_all P (take n (drop k s)) \<longleftrightarrow> (\<forall>i. k \<le> i \<and> i < k + n \<longrightarrow> P (s ! i))"
proof
  assume len: "k + n \<le> length s" and a: "list_all P (take n (drop k s))"
  show "\<forall>i. k \<le> i \<and> i < k + n \<longrightarrow> P (s ! i)"
  proof (intro allI impI)
    fix i assume i: "k \<le> i \<and> i < k + n"
    then have "i - k < length (take n (drop k s))" using len by auto
    with a have "P (take n (drop k s) ! (i - k))" by (simp add: list_all_length)
    moreover have "i - k < n" and "k + (i - k) = i" using i by auto
    ultimately show "P (s ! i)" using len by (simp add: nth_take nth_drop)
  qed
next
  assume len: "k + n \<le> length s" and a: "\<forall>i. k \<le> i \<and> i < k + n \<longrightarrow> P (s ! i)"
  show "list_all P (take n (drop k s))"
    unfolding list_all_length
  proof (intro allI impI)
    fix j assume "j < length (take n (drop k s))"
    then have j: "j < n" by simp
    with a have "P (s ! (k + j))" by simp
    with j len show "P (take n (drop k s) ! j)" by simp
  qed
qed

lemma isUuid_positions:
  "isUuid s \<longleftrightarrow>
     length s = 36
     \<and> (\<forall>i<36. if i \<in> {8, 13, 18, 23} then s ! i = CHR ''-'' else isHexDigit (s ! i))"
proof (cases "length s = 36")
  case False
  then show ?thesis by (auto simp: isUuid_def)
next
  case True
  have g1: "list_all isHexDigit (take 8 s) \<longleftrightarrow> (\<forall>i. 0 \<le> i \<and> i < 0 + 8 \<longrightarrow> isHexDigit (s ! i))"
    using list_all_segment[of 0 8 s isHexDigit] True by simp
  have g2: "list_all isHexDigit (take 4 (drop 9 s)) \<longleftrightarrow> (\<forall>i. 9 \<le> i \<and> i < 9 + 4 \<longrightarrow> isHexDigit (s ! i))"
    using list_all_segment[of 9 4 s isHexDigit] True by simp
  have g3: "list_all isHexDigit (take 4 (drop 14 s)) \<longleftrightarrow> (\<forall>i. 14 \<le> i \<and> i < 14 + 4 \<longrightarrow> isHexDigit (s ! i))"
    using list_all_segment[of 14 4 s isHexDigit] True by simp
  have g4: "list_all isHexDigit (take 4 (drop 19 s)) \<longleftrightarrow> (\<forall>i. 19 \<le> i \<and> i < 19 + 4 \<longrightarrow> isHexDigit (s ! i))"
    using list_all_segment[of 19 4 s isHexDigit] True by simp
  have g5: "list_all isHexDigit (drop 24 s) \<longleftrightarrow> (\<forall>i. 24 \<le> i \<and> i < 24 + 12 \<longrightarrow> isHexDigit (s ! i))"
    using list_all_segment[of 24 12 s isHexDigit] True by simp
  have "isUuid s \<longleftrightarrow>
      list_all isHexDigit (take 8 s) \<and> s ! 8 = CHR ''-''
      \<and> list_all isHexDigit (take 4 (drop 9 s)) \<and> s ! 13 = CHR ''-''
      \<and> list_all isHexDigit (take 4 (drop 14 s)) \<and> s ! 18 = CHR ''-''
      \<and> list_all isHexDigit (take 4 (drop 19 s)) \<and> s ! 23 = CHR ''-''
      \<and> list_all isHexDigit (drop 24 s)"
    using True by (simp add: isUuid_def)
  also have "\<dots> \<longleftrightarrow>
      (\<forall>i<36. if i \<in> {8, 13, 18, 23} then s ! i = CHR ''-'' else isHexDigit (s ! i))"
    unfolding g1 g2 g3 g4 g5
  proof (intro iffI allI impI, goal_cases)
    case (1 i)
    then consider "i < 8" | "i = 8" | "9 \<le> i \<and> i < 13" | "i = 13" | "14 \<le> i \<and> i < 18"
      | "i = 18" | "19 \<le> i \<and> i < 23" | "i = 23" | "24 \<le> i \<and> i < 36" by linarith
    then show ?case using 1 by cases auto
  next
    case 2
    then show ?case by auto
  qed
  finally show ?thesis using True by simp
qed


lemma parse_accepted:
  "accepted body \<Longrightarrow> \<exists>ident content. RequestSchema_parse body = Inr (ident, content)"
  by (cases body) (auto simp: accepted_def schema_defs Let_def split: option.splits)

lemma parse_rejected:
  "\<not> accepted body \<Longrightarrow> \<exists>issues. issues \<noteq> [] \<and> RequestSchema_parse body = Inl issues"
  by (cases body) (auto simp: accepted_def schema_defs Let_def split: option.splits)

lemma handle_valid_not_400:
  "RequestSchema_parse body = Inr (ident, content) \<Longrightarrow>
   status (fst (handle env (Inr body) db)) \<noteq> 400"
  by (auto simp: handler_defs Let_def split: sum.splits option.splits)

text \<open>
  Claim C7. A body is accepted when it is an object whose \<open>id\<close>, if there is one, is a string
  in the UUID format (36 characters: hexadecimal digits in groups of 8, 4, 4, 4 and 12 with a
  hyphen between the groups) and whose \<open>content\<close> is there and is a string, an object or an
  array. Every other body (an \<open>id\<close> of another form, a \<open>content\<close> that is a number, a
  boolean, null or missing) is answered with 400, \<open>error: "Validation failed"\<close> and at least
  one issue in \<open>details\<close>, without any call to the store; an accepted body is never answered
  with 400.
\<close>

theorem validation_failures:
  "(\<not> accepted body \<longrightarrow>
      (\<exists>issues. issues \<noteq> []
         \<and> handle env (Inr body) db =
             (respond 400 (Failure ''Validation failed'' (Issues issues)), [], db)))
   \<and> (accepted body \<longrightarrow> status (fst (handle env (Inr body) db)) \<noteq> 400)
   \<and> (accepted body \<longleftrightarrow>
        (\<exists>kvs. body = JObj kvs
           \<and> (\<forall>v. map_of kvs ''id'' = Some v \<longrightarrow> (\<exists>s. v = JStr s \<and> isUuid s))
           \<and> (\<exists>v. map_of kvs ''content'' = Some v
                  \<and> ((\<exists>s. v = JStr s) \<or> (\<exists>es. v = JObj es) \<or> (\<exists>xs. v = JArr xs)))))
   \<and> (isUuid s \<longleftrightarrow>
        length s = 36
        \<and> (\<forall>i<36. if i \<in> {8, 13, 18, 23} then s ! i = CHR ''-'' else isHexDigit (s ! i)))"
proof (intro conjI impI)
  show "\<exists>issues. issues \<noteq> []
         \<and> handle env (Inr body) db =
             (respond 400 (Failure ''Validation failed'' (Issues issues)), [], db)"
    if "\<not> accepted body"
  proof -
    from parse_rejected[OF that] obtain issues
      where "issues \<noteq> []" "RequestSchema_parse body = Inl issues" by blast
    then show ?thesis by (simp add: handler_defs)
  qed
  show "status (fst (handle env (Inr body) db)) \<noteq> 400" if "accepted body"
  proof -
    from parse_accepted[OF that] obtain ident content
      where "RequestSchema_parse body = Inr (ident, content)" by blast
    then show ?thesis by (rule handle_valid_not_400)
  qed
  show "accepted body \<longleftrightarrow>
        (\<exists>kvs. body = JObj kvs
           \<and> (\<forall>v. map_of kvs ''id'' = Some v \<longrightarrow> (\<exists>s. v = JStr s \<and> isUuid s))
           \<and> (\<exists>v. map_of kvs ''content'' = Some v
                  \<and> ((\<exists>s. v = JStr s) \<or> (\<exists>es. v = JObj es) \<or> (\<exists>xs. v = JArr xs))))"
    by (cases body)
       (auto simp: accepted_def idSchema_def contentSchema_def split: option.splits json.splits)
  show "isUuid s \<longleftrightarrow>
        length s = 36
        \<and> (\<forall>i<36. if i \<in> {8, 13, 18, 23} then s ! i = CHR ''-'' else isHexDigit (s ! i))"
    by (rule isUuid_positions)
qed


theorem validation_failures_witness:
  "\<not> accepted (JObj [(''id'', JStr ''not-a-uuid''), (''content'', JStr ''x'')] :: string json)
   \<and> (\<exists>issues. issues \<noteq> []
         \<and> handle (tableEnv ''00000000-0000-4000-8000-000000000000'')
              (Inr (JObj [(''id'', JStr ''not-a-uuid''), (''content'', JStr ''x'')])) Map.empty =
             (respond 400 (Failure ''Validation failed'' (Issues issues)), [], Map.empty))
   \<and> \<not> accepted (JObj [(''content'', JNum ''5'')] :: string json)
   \<and> (\<exists>issues. issues \<noteq> []
         \<and> handle (tableEnv ''00000000-0000-4000-8000-000000000000'')
              (Inr (JObj [(''content'', JNum ''5'')])) Map.empty =
             (respond 400 (Failure ''Validation failed'' (Issues issues)), [], Map.empty))
   \<and> accepted (JObj [(''id'', JStr ''123e4567-e89b-12d3-a456-426614174000''),
                      (''content'', JArr [])] :: string json)
   \<and> status (fst (handle (tableEnv ''00000000-0000-4000-8000-000000000000'')
              (Inr (JObj [(''id'', JStr ''123e4567-e89b-12d3-a456-426614174000''),
                          (''content'', JArr [])])) Map.empty)) \<noteq> 400"
proof -
  let ?env = "tableEnv ''00000000-0000-4000-8000-000000000000''"
  have n: "\<not> isUuid ''not-a-uuid''" by code_simp
  have r1: "\<not> accepted (JObj [(''id'', JStr ''not-a-uuid''), (''content'', JStr ''x'')] :: string json)"
    using n by (simp add: accepted_def idSchema_def)
  have r2: "\<not> accepted (JObj [(''content'', JNum ''5'')] :: string json)"
    by (simp add: accepted_def contentSchema_def)
  have a: "accepted (JObj [(''id'', JStr ''123e4567-e89b-12d3-a456-426614174000''),
                      (''content'', JArr [])] :: string json)"
    using sample_uuid by (simp add: accepted_def idSchema_def contentSchema_def)
  note t1 = validation_failures
      [of "JObj [(''id'', JStr ''not-a-uuid''), (''content'', JStr ''x'')]" ?env Map.empty "[]"]
  note t2 = validation_failures [of "JObj [(''content'', JNum ''5'')]" ?env Map.empty "[]"]
  note t3 = validation_failures
      [of "JObj [(''id'', JStr ''123e4567-e89b-12d3-a456-426614174000''), (''content'', JArr [])]"
          ?env Map.empty "[]"]
  from t1 r1 t2 r2 t3 a show ?thesis by blast
qed


lemma handle_orm_statuses:
  "status (fst (handle_orm env request db)) \<in> {201, 400, 500}"
  by (auto simp: handler_defs Let_def split: sum.splits option.splits thrown.splits)

text \<open>
  Claim C8, as the code has it. On a request that passes validation, whose stored text is
  within the ceiling and whose insert does not fail with a uniqueness message, the handler
  with the ORM insert and the handler with the size gate and the duplicate answer resolve the
  same identifier and the same stored text, and the insert of that pair is the first call of
  both to the store. They return the same response, the same calls and the same store
  whenever the ORM insert and the prepared insert have the same outcome on that call. The ORM
  variant never answers 413 or 409.
\<close>

theorem variants_agree:
  fixes env :: "('n, 'db) env"
  defines "c \<equiv> \<lambda>content. contentForDb (numberToString env) (sanitize content)"
      and "tid \<equiv> \<lambda>ident. case ident of Some i \<Rightarrow> i | None \<Rightarrow> randomUUID env"
  assumes "RequestSchema_parse body = Inr (ident, content)"
      and "blobSize (c content) \<le> maxBytes"
      and "\<forall>message. prepared_insert env (tid ident) (c content) db = Inl message
             \<longrightarrow> \<not> uniqueRegexTest message"
  shows "(\<exists>resp calls db'.
          handle env (Inr body) db = (resp, Insert (tid ident) (c content) # calls, db'))
    \<and> (\<exists>resp calls db'.
          handle_orm env (Inr body) db = (resp, Insert (tid ident) (c content) # calls, db'))
    \<and> (orm_insert env (tid ident) (c content) db
           = prepared_insert env (tid ident) (c content) db
         \<longrightarrow> handle_orm env (Inr body) db = handle env (Inr body) db)
    \<and> status (fst (handle_orm env request db)) \<noteq> 413
    \<and> status (fst (handle_orm env request db)) \<noteq> 409"
proof (intro conjI impI)
  show "\<exists>resp calls db'.
          handle env (Inr body) db = (resp, Insert (tid ident) (c content) # calls, db')"
    using assms(3,4) unfolding c_def tid_def
    by (auto simp: handler_defs Let_def split: sum.splits option.splits)
  show "\<exists>resp calls db'.
          handle_orm env (Inr body) db = (resp, Insert (tid ident) (c content) # calls, db')"
    using assms(3) unfolding c_def tid_def
    by (auto simp: handler_defs Let_def split: sum.splits option.splits)
  show "handle_orm env (Inr body) db = handle env (Inr body) db"
    if "orm_insert env (tid ident) (c content) db
           = prepared_insert env (tid ident) (c content) db"
    using that assms by (auto simp: handler_defs Let_def split: sum.splits)
  show "status (fst (handle_orm env request db)) \<noteq> 413"
    using handle_orm_statuses[of env request db] by auto
  show "status (fst (handle_orm env request db)) \<noteq> 409"
    using handle_orm_statuses[of env request db] by auto
qed

lemma variants_agree_on_rejects:
  "handle_orm env (Inl message) db = handle env (Inl message) db"
  "RequestSchema_parse body = Inl issues \<Longrightarrow>
   handle_orm env (Inr body) db = handle env (Inr body) db"
  by (simp_all add: handler_defs)


lemmas text_defs =
  contentForDb_def QuoteJSONString_def quoteChar_def replace_g.simps assignProp_def

lemma sample_content:
  "contentForDb (\<lambda>t. t) (sanitize (JObj [(''a'', JNum ''1''), (''elementScript'', JStr ''x'')]))
     = ''{'' @ [CHR 0x22] @ ''a'' @ [CHR 0x22] @ '':1}''"
  by (simp add: text_defs)

lemma parse_content_object:
  "RequestSchema_parse (JObj [(''content'', JObj es)]) = Inr (None, JObj es)"
  by (simp add: schema_defs)

theorem variants_agree_witness:
  "handle_orm (tableEnv ''00000000-0000-4000-8000-000000000000'')
     (Inr (JObj [(''content'', JObj [(''a'', JNum ''1''), (''elementScript'', JStr ''x'')])]))
     Map.empty
   = handle (tableEnv ''00000000-0000-4000-8000-000000000000'')
     (Inr (JObj [(''content'', JObj [(''a'', JNum ''1''), (''elementScript'', JStr ''x'')])]))
     Map.empty
   \<and> handle (tableEnv ''00000000-0000-4000-8000-000000000000'')
     (Inr (JObj [(''content'', JObj [(''a'', JNum ''1''), (''elementScript'', JStr ''x'')])]))
     Map.empty
   = (respond 201
        (Stored \<lparr>row_id = ''00000000-0000-4000-8000-000000000000'',
                 row_content = ''{'' @ [CHR 0x22] @ ''a'' @ [CHR 0x22] @ '':1}''\<rparr>),
      [Insert ''00000000-0000-4000-8000-000000000000''
         (''{'' @ [CHR 0x22] @ ''a'' @ [CHR 0x22] @ '':1}''),
       SelectById ''00000000-0000-4000-8000-000000000000''],
      [''00000000-0000-4000-8000-000000000000''
         \<mapsto> ''{'' @ [CHR 0x22] @ ''a'' @ [CHR 0x22] @ '':1}''])"
proof -
  let ?env = "tableEnv ''00000000-0000-4000-8000-000000000000''"
  let ?content = "JObj [(''a'', JNum ''1''), (''elementScript'', JStr ''x'')] :: string json"
  have nts: "numberToString ?env = (\<lambda>t. t)" by (simp add: tableEnv_def)
  have small: "blobSize (contentForDb (numberToString ?env) (sanitize ?content)) \<le> maxBytes"
    unfolding nts sample_content by (simp add: blobSize_def maxBytes_def)
  have ok: "\<forall>message. prepared_insert ?env (case None of Some i \<Rightarrow> i | None \<Rightarrow> randomUUID ?env)
                (contentForDb (numberToString ?env) (sanitize ?content)) Map.empty = Inl message
             \<longrightarrow> \<not> uniqueRegexTest message"
    by (simp add: table_defs)
  have same: "orm_insert ?env (case None of Some i \<Rightarrow> i | None \<Rightarrow> randomUUID ?env)
                (contentForDb (numberToString ?env) (sanitize ?content)) Map.empty
            = prepared_insert ?env (case None of Some i \<Rightarrow> i | None \<Rightarrow> randomUUID ?env)
                (contentForDb (numberToString ?env) (sanitize ?content)) Map.empty"
    by (simp add: table_defs)
  from variants_agree[OF parse_content_object small ok] same
  have 1: "handle_orm ?env (Inr (JObj [(''content'', ?content)])) Map.empty
         = handle ?env (Inr (JObj [(''content'', ?content)])) Map.empty"
    by blast
  have 2: "handle ?env (Inr (JObj [(''content'', ?content)])) Map.empty
   = (respond 201
        (Stored \<lparr>row_id = ''00000000-0000-4000-8000-000000000000'',
                 row_content = ''{'' @ [CHR 0x22] @ ''a'' @ [CHR 0x22] @ '':1}''\<rparr>),
      [Insert ''00000000-0000-4000-8000-000000000000''
         (''{'' @ [CHR 0x22] @ ''a'' @ [CHR 0x22] @ '':1}''),
       SelectById ''00000000-0000-4000-8000-000000000000''],
      [''00000000-0000-4000-8000-000000000000''
         \<mapsto> ''{'' @ [CHR 0x22] @ ''a'' @ [CHR 0x22] @ '':1}''])"
    using small
    by (simp add: handle_def handle_try_def catchAll_def readBack_def parse_content_object
        Let_def nts sample_content table_defs del: sanitize.simps)
  from 1 2 show ?thesis by blast
qed

text \<open>
  Claim C10. The scrub knows the lower-case markers only: the string content
  \<open><SCRIPT>alert(1)</SCRIPT>\<close> is stored with both markers as they were.
\<close>

theorem scrub_is_case_sensitive:
  "contentForDb nts (sanitize (JStr ''<SCRIPT>alert(1)</SCRIPT>''))
     = [CHR 0x22] @ ''<SCRIPT>alert(1)</SCRIPT>'' @ [CHR 0x22]
   \<and> includesStr (contentForDb nts (sanitize (JStr ''<SCRIPT>alert(1)</SCRIPT>''))) ''<SCRIPT>''
   \<and> includesStr (contentForDb nts (sanitize (JStr ''<SCRIPT>alert(1)</SCRIPT>''))) ''</SCRIPT>''
   \<and> handle (tableEnv uuid)
        (Inr (JObj [(''content'', JStr ''<SCRIPT>alert(1)</SCRIPT>'')])) Map.empty
     = (respond 201
          (Stored \<lparr>row_id = uuid,
                   row_content = [CHR 0x22] @ ''<SCRIPT>alert(1)</SCRIPT>'' @ [CHR 0x22]\<rparr>),
        [Insert uuid ([CHR 0x22] @ ''<SCRIPT>alert(1)</SCRIPT>'' @ [CHR 0x22]), SelectById uuid],
        [uuid \<mapsto> [CHR 0x22] @ ''<SCRIPT>alert(1)</SCRIPT>'' @ [CHR 0x22]])"
proof -
  have c: "contentForDb nts (JStr ''<SCRIPT>alert(1)</SCRIPT>'')
     = [CHR 0x22] @ ''<SCRIPT>alert(1)</SCRIPT>'' @ [CHR 0x22]" for nts :: "'x \<Rightarrow> string"
    by (simp add: text_defs)
  have h: "handle (tableEnv uuid)
        (Inr (JObj [(''content'', JStr ''<SCRIPT>alert(1)</SCRIPT>'')])) Map.empty
     = (respond 201
          (Stored \<lparr>row_id = uuid,
                   row_content = [CHR 0x22] @ ''<SCRIPT>alert(1)</SCRIPT>'' @ [CHR 0x22]\<rparr>),
        [Insert uuid ([CHR 0x22] @ ''<SCRIPT>alert(1)</SCRIPT>'' @ [CHR 0x22]), SelectById uuid],
        [uuid \<mapsto> [CHR 0x22] @ ''<SCRIPT>alert(1)</SCRIPT>'' @ [CHR 0x22]])"
    by (simp add: handle_def handle_try_def catchAll_def readBack_def parse_content_only
        Let_def c table_defs blobSize_def maxBytes_def)
  show ?thesis unfolding sanitize.simps c using h by simp
qed

text \<open>
  Claim C6. Arrays keep their length and order and scalars pass unchanged, but not every key
  other than \<open>elementScript\<close> is kept: \<open>output[k] = ...\<close> with \<open>k = "__proto__"\<close> reaches the
  setter inherited from \<open>Object.prototype\<close> and creates no property, so a pair under
  \<open>__proto__\<close> that \<open>JSON.parse\<close> had made an own property of the input is missing from the
  sanitized value and from the stored text.
\<close>

theorem sanitize_loses_proto_key:
  "sanitize (JArr [JObj [(''__proto__'', JObj [(''a'', JNum ''1'')]), (''b'', JNum ''2'')]])
     = JArr [JObj [(''b'', JNum ''2'')]]
   \<and> contentForDb (\<lambda>t. t)
        (sanitize (JArr [JObj [(''__proto__'', JObj [(''a'', JNum ''1'')]), (''b'', JNum ''2'')]]))
     = ''[{'' @ [CHR 0x22] @ ''b'' @ [CHR 0x22] @ '':2}]''"
  by (simp add: text_defs)

text \<open>
  Claim C8 as it was stated fails where the two inserts word a failure differently: the
  request passes validation, the text is within the ceiling, neither message is a
  uniqueness message, and the two handlers answer 500 with different details.
\<close>

theorem variants_differ_counterexample:
  "RequestSchema_parse (JObj [(''content'', JStr ''x'')] :: string json) = Inr (None, JStr ''x'')
   \<and> blobSize (contentForDb (\<lambda>t. t) (sanitize (JStr ''x''))) \<le> maxBytes
   \<and> \<not> uniqueRegexTest ''D1_ERROR: no such table: templates_table: SQLITE_ERROR''
   \<and> \<not> uniqueRegexTest ''Failed query: insert into templates_table (id, content) values''
   \<and> handle
        (failingEnv ''00000000-0000-4000-8000-000000000000''
           ''D1_ERROR: no such table: templates_table: SQLITE_ERROR''
           ''Failed query: insert into templates_table (id, content) values'')
        (Inr (JObj [(''content'', JStr ''x'')])) Map.empty
     = (respond 500 (Failure ''Internal server error''
                       (Text ''D1_ERROR: no such table: templates_table: SQLITE_ERROR'')),
        [Insert ''00000000-0000-4000-8000-000000000000'' [CHR 0x22, CHR ''x'', CHR 0x22]],
        Map.empty)
   \<and> handle_orm
        (failingEnv ''00000000-0000-4000-8000-000000000000''
           ''D1_ERROR: no such table: templates_table: SQLITE_ERROR''
           ''Failed query: insert into templates_table (id, content) values'')
        (Inr (JObj [(''content'', JStr ''x'')])) Map.empty
     = (respond 500 (Failure ''Internal server error''
                       (Text ''Failed query: insert into templates_table (id, content) values'')),
        [Insert ''00000000-0000-4000-8000-000000000000'' [CHR 0x22, CHR ''x'', CHR 0x22]],
        Map.empty)
   \<and> handle_orm
        (failingEnv ''00000000-0000-4000-8000-000000000000''
           ''D1_ERROR: no such table: templates_table: SQLITE_ERROR''
           ''Failed query: insert into templates_table (id, content) values'')
        (Inr (JObj [(''content'', JStr ''x'')])) Map.empty
     \<noteq> handle
        (failingEnv ''00000000-0000-4000-8000-000000000000''
           ''D1_ERROR: no such table: templates_table: SQLITE_ERROR''
           ''Failed query: insert into templates_table (id, content) values'')
        (Inr (JObj [(''content'', JStr ''x'')])) Map.empty"
proof -
  let ?env = "failingEnv ''00000000-0000-4000-8000-000000000000''
           ''D1_ERROR: no such table: templates_table: SQLITE_ERROR''
           ''Failed query: insert into templates_table (id, content) values''"
  let ?body = "JObj [(''content'', JStr ''x'')] :: string json"
  have small: "blobSize (contentForDb (\<lambda>t. t) (sanitize (JStr ''x''))) \<le> maxBytes"
    by (simp add: contentForDb_x blobSize_def maxBytes_def)
  have m2: "\<not> uniqueRegexTest ''Failed query: insert into templates_table (id, content) values''"
    by code_simp
  have h: "handle ?env (Inr ?body) Map.empty
     = (respond 500 (Failure ''Internal server error''
                       (Text ''D1_ERROR: no such table: templates_table: SQLITE_ERROR'')),
        [Insert ''00000000-0000-4000-8000-000000000000'' [CHR 0x22, CHR ''x'', CHR 0x22]],
        Map.empty)"
    using other_message_differs
    by (simp add: handle_def handle_try_def catchAll_def parse_content_only Let_def
        contentForDb_x failingEnv_def table_defs blobSize_def maxBytes_def respond_def)
  have o: "handle_orm ?env (Inr ?body) Map.empty
     = (respond 500 (Failure ''Internal server error''
                       (Text ''Failed query: insert into templates_table (id, content) values'')),
        [Insert ''00000000-0000-4000-8000-000000000000'' [CHR 0x22, CHR ''x'', CHR 0x22]],
        Map.empty)"
    by (simp add: handle_orm_def handle_orm_try_def catchAll_def parse_content_only Let_def
        contentForDb_x failingEnv_def table_defs respond_def)
  have ne: "handle_orm ?env (Inr ?body) Map.empty \<noteq> handle ?env (Inr ?body) Map.empty"
    unfolding h o by (simp add: respond_def)
  from parse_content_only[of "''x''"] small other_message_differs m2 h o ne
  show ?thesis by simp
qed

section \<open>Reading back what was written\<close>

lemma skipWs_start: "\<not> isWhitespace c \<Longrightarrow> skipWs (c # cs) = c # cs"
  by (simp add: skipWs_def)

lemma parseChars_quote: "parseChars (CHR 0x22 # cs) = Some ([], cs)"
  by simp

lemma parseChars_escape:
  "unescape e = Some x \<Longrightarrow>
   parseChars (CHR 0x5C # e # es) = map_option (\<lambda>(s, r). (x # s, r)) (parseChars es)"
  by (auto simp: unescape_def split: if_splits)

lemma parseChars_unicode:
  "hex4 a b c d = Some u \<Longrightarrow> u < 0xD800 \<Longrightarrow>
   parseChars (CHR 0x5C # CHR ''u'' # a # b # c # d # rest) =
     map_option (\<lambda>(s, r). (utf8 u @ s, r)) (parseChars rest)"
  by simp

lemma parseChars_plain:
  "c \<noteq> CHR 0x22 \<Longrightarrow> c \<noteq> CHR 0x5C \<Longrightarrow> \<not> (of_char c :: nat) < 0x20 \<Longrightarrow>
   parseChars (c # cs) = map_option (\<lambda>(s, r). (c # s, r)) (parseChars cs)"
  by simp

declare parseChars.simps(2) [simp del]

lemma hexValue_hexDigit: "d < 16 \<Longrightarrow> hexValue (hexDigit d) = Some d"
proof -
  have "list_all (\<lambda>d. hexValue (hexDigit d) = Some d) [0..<16]" by code_simp
  then have "\<forall>d \<in> set [0..<16]. hexValue (hexDigit d) = Some d" by (simp only: list_all_iff)
  moreover assume "d < 16"
  ultimately show ?thesis by simp
qed

lemma hex4_escape:
  "n < 256 \<Longrightarrow> hex4 (CHR ''0'') (CHR ''0'') (hexDigit (n div 16)) (hexDigit (n mod 16)) = Some n"
proof -
  assume n: "n < 256"
  then have "n div 16 < 16" "n mod 16 < 16" by simp_all
  then have "hexValue (hexDigit (n div 16)) = Some (n div 16)"
            "hexValue (hexDigit (n mod 16)) = Some (n mod 16)"
    by (simp_all add: hexValue_hexDigit)
  moreover have "hexValue (CHR ''0'') = Some 0" by (simp add: hexValue_def)
  ultimately show ?thesis by (simp add: hex4_def)
qed

lemma parseChars_quoteChar:
  "parseChars (quoteChar c @ t) = map_option (\<lambda>(s, r). (c # s, r)) (parseChars t)"
proof -
  consider "c = CHR 0x08" | "c = CHR 0x09" | "c = CHR 0x0A" | "c = CHR 0x0C" | "c = CHR 0x0D"
    | "c = CHR 0x22" | "c = CHR 0x5C"
    | "c \<notin> {CHR 0x08, CHR 0x09, CHR 0x0A, CHR 0x0C, CHR 0x0D, CHR 0x22, CHR 0x5C}"
      "(of_char c :: nat) < 0x20"
    | "c \<notin> {CHR 0x08, CHR 0x09, CHR 0x0A, CHR 0x0C, CHR 0x0D, CHR 0x22, CHR 0x5C}"
      "\<not> (of_char c :: nat) < 0x20"
    by blast
  then show ?thesis
  proof cases
    case 8
    let ?n = "of_char c :: nat"
    have q: "quoteChar c = [CHR 0x5C, CHR ''u'', CHR ''0'', CHR ''0'',
                hexDigit (?n div 16), hexDigit (?n mod 16)]"
      using 8 by (simp add: quoteChar_def unicodeEscape_def)
    have h: "hex4 (CHR ''0'') (CHR ''0'') (hexDigit (?n div 16)) (hexDigit (?n mod 16)) = Some ?n"
      using 8(2) by (intro hex4_escape) simp
    have u: "utf8 ?n = [c]" using 8(2) by (simp add: utf8_def)
    show ?thesis unfolding q using parseChars_unicode[OF h] 8(2) by (simp add: u)
  next
    case 9
    then show ?thesis by (simp add: quoteChar_def parseChars_plain)
  qed (simp_all add: quoteChar_def parseChars_escape unescape_def)
qed

lemma parseChars_quoted:
  "parseChars (concat (map quoteChar s) @ CHR 0x22 # rest) = Some (s, rest)"
  by (induction s) (simp_all add: parseChars_quoteChar parseChars_quote)



lemma isDigit_isNumberChar: "isDigit c \<Longrightarrow> isNumberChar c"
  unfolding isDigit_def isNumberChar_def by (simp only: set_simps) blast

lemma digits_chars: "list_all isDigit s \<Longrightarrow> list_all isNumberChar s"
  by (induction s) (simp_all add: isDigit_isNumberChar)

lemma takeWhile_digits_chars: "list_all isNumberChar (takeWhile isDigit s)"
proof (rule digits_chars)
  show "list_all isDigit (takeWhile isDigit s)"
    unfolding list_all_iff
  proof
    fix x assume "x \<in> set (takeWhile isDigit s)"
    then show "isDigit x" by (rule set_takeWhileD[THEN conjunct2])
  qed
qed

lemma numberChar_consts:
  "isNumberChar (CHR ''-'')" "isNumberChar (CHR ''+'')" "isNumberChar (CHR ''.'')"
  "isNumberChar (CHR ''e'')" "isNumberChar (CHR ''E'')"
  by (simp_all add: isNumberChar_def)

lemma isExponent_Cons:
  "isExponent (e # r) \<longleftrightarrow>
     (e = CHR ''e'' \<or> e = CHR ''E'')
     \<and> (\<exists>g ds. r = g # ds
           \<and> (if g = CHR ''+'' \<or> g = CHR ''-'' then digits1 ds else digits1 r))"
  by (cases r) (simp_all add: isExponent_def)

lemma isExponent_chars: "isExponent s \<Longrightarrow> list_all isNumberChar s"
proof (cases s)
  case Nil
  then show ?thesis by simp
next
  case (Cons e r)
  assume x: "isExponent s"
  from x[unfolded Cons isExponent_Cons] obtain g ds
    where e: "e = CHR ''e'' \<or> e = CHR ''E''" and r: "r = g # ds"
      and d: "if g = CHR ''+'' \<or> g = CHR ''-'' then digits1 ds else digits1 r"
    by blast
  from e have en: "isNumberChar e" using numberChar_consts by blast
  have "list_all isNumberChar r"
  proof (cases "g = CHR ''+'' \<or> g = CHR ''-''")
    case True
    with d have "list_all isDigit ds" by (simp add: digits1_def)
    then have "list_all isNumberChar ds" by (rule digits_chars)
    moreover from True have "isNumberChar g" using numberChar_consts by blast
    ultimately show ?thesis by (simp add: r)
  next
    case False
    with d have "list_all isDigit r" by (simp add: digits1_def)
    then show ?thesis by (rule digits_chars)
  qed
  with en Cons show ?thesis by simp
qed

lemma isFraction_chars: "isFraction s \<Longrightarrow> list_all isNumberChar s"
proof (cases s)
  case Nil
  then show ?thesis by simp
next
  case (Cons p r)
  assume f: "isFraction s"
  show ?thesis
  proof (cases "p = CHR ''.''")
    case True
    with f Cons have "isExponent (dropWhile isDigit r)" by (simp add: isFraction_def)
    then have "list_all isNumberChar (dropWhile isDigit r)" by (rule isExponent_chars)
    with takeWhile_digits_chars[of r]
    have "list_all isNumberChar (takeWhile isDigit r @ dropWhile isDigit r)"
      by (simp only: list_all_append simp_thms)
    then have "list_all isNumberChar r" by simp
    with True Cons show ?thesis by (simp add: numberChar_consts)
  next
    case False
    with f Cons have "isExponent s" by (simp add: isFraction_def)
    then show ?thesis by (rule isExponent_chars)
  qed
qed

lemma isJsonNumber_chars: "isJsonNumber s \<Longrightarrow> s \<noteq> [] \<and> list_all isNumberChar s"
proof -
  assume j: "isJsonNumber s"
  define u where "u = (case s of [] \<Rightarrow> [] | m # r \<Rightarrow> if m = CHR ''-'' then r else s)"
  from j have d: "takeWhile isDigit u \<noteq> []" and f: "isFraction (dropWhile isDigit u)"
    unfolding isJsonNumber_def u_def Let_def by simp_all
  from isFraction_chars[OF f] takeWhile_digits_chars[of u]
  have "list_all isNumberChar (takeWhile isDigit u @ dropWhile isDigit u)"
    by (simp only: list_all_append simp_thms)
  then have u: "list_all isNumberChar u" by simp
  from d have ne: "u \<noteq> []" by auto
  show ?thesis
  proof (cases s)
    case Nil
    with ne show ?thesis by (simp add: u_def)
  next
    case (Cons m r)
    show ?thesis
    proof (cases "m = CHR ''-''")
      case True
      then have "isNumberChar m" by (simp add: numberChar_consts)
      moreover from True Cons have "u = r" by (simp add: u_def)
      ultimately show ?thesis using u Cons by simp
    next
      case False
      with Cons have "u = s" by (simp add: u_def)
      with u Cons show ?thesis by simp
    qed
  qed
qed




lemma numberChar_not_structural:
  "isNumberChar c \<Longrightarrow>
   \<not> isWhitespace c \<and> c \<noteq> CHR 0x22 \<and> c \<noteq> CHR ''['' \<and> c \<noteq> CHR '']'' \<and> c \<noteq> CHR ''{''
   \<and> c \<noteq> CHR ''}'' \<and> c \<noteq> CHR ''n'' \<and> c \<noteq> CHR ''t'' \<and> c \<noteq> CHR ''f''"
  unfolding isNumberChar_def isWhitespace_def by (simp only: set_simps) auto

lemma takeWhile_exact:
  "list_all P xs \<Longrightarrow> ys = [] \<or> \<not> P (hd ys) \<Longrightarrow> takeWhile P (xs @ ys) = xs"
  by (induction xs) (auto simp: takeWhile_eq_Nil_iff neq_Nil_conv)

lemma dropWhile_exact:
  "list_all P xs \<Longrightarrow> ys = [] \<or> \<not> P (hd ys) \<Longrightarrow> dropWhile P (xs @ ys) = ys"
  by (induction xs) (auto simp: dropWhile_eq_self_iff neq_Nil_conv)

lemma parseValue_null: "parseValue rd (Suc f) (''null'' @ rest) = Some (JNull, rest)"
  by (simp add: skipWs_start isWhitespace_def)

lemma parseValue_true: "parseValue rd (Suc f) (''true'' @ rest) = Some (JBool True, rest)"
  by (simp add: skipWs_start isWhitespace_def)

lemma parseValue_false: "parseValue rd (Suc f) (''false'' @ rest) = Some (JBool False, rest)"
  by (simp add: skipWs_start isWhitespace_def)

lemma parseValue_string:
  "parseValue rd (Suc f) (QuoteJSONString s @ rest) = Some (JStr s, rest)"
  by (simp add: QuoteJSONString_def skipWs_start isWhitespace_def parseChars_quoted)

lemma parseValue_other:
  "\<not> isWhitespace c \<Longrightarrow> c \<noteq> CHR 0x22 \<Longrightarrow> c \<noteq> CHR ''['' \<Longrightarrow> c \<noteq> CHR ''{'' \<Longrightarrow>
   c \<noteq> CHR ''n'' \<Longrightarrow> c \<noteq> CHR ''t'' \<Longrightarrow> c \<noteq> CHR ''f'' \<Longrightarrow>
   parseValue rd (Suc f) (c # cs) =
     (if isJsonNumber (takeWhile isNumberChar (c # cs))
      then Some (JNum (rd (takeWhile isNumberChar (c # cs))), dropWhile isNumberChar (c # cs))
      else None)"
  by (auto simp: skipWs_start)

lemma parseValue_number:
  assumes "isJsonNumber t" and "rest = [] \<or> \<not> isNumberChar (hd rest)"
  shows "parseValue rd (Suc f) (t @ rest) = Some (JNum (rd t), rest)"
proof -
  from isJsonNumber_chars[OF assms(1)] obtain c cs
    where t: "t = c # cs" and all: "list_all isNumberChar t" by (cases t) auto
  then have c: "isNumberChar c" by simp
  note n = numberChar_not_structural[OF c]
  have tw: "takeWhile isNumberChar (t @ rest) = t" by (rule takeWhile_exact[OF all assms(2)])
  have dw: "dropWhile isNumberChar (t @ rest) = rest" by (rule dropWhile_exact[OF all assms(2)])
  have "parseValue rd (Suc f) (c # (cs @ rest)) =
     (if isJsonNumber (takeWhile isNumberChar (c # (cs @ rest)))
      then Some (JNum (rd (takeWhile isNumberChar (c # (cs @ rest)))),
                 dropWhile isNumberChar (c # (cs @ rest)))
      else None)"
    using n by (intro parseValue_other) simp_all
  moreover have "c # (cs @ rest) = t @ rest" by (simp add: t)
  ultimately show ?thesis using assms(1) by (simp only: tw dw if_True)
qed


lemma parseValue_array_empty: "parseValue rd (Suc f) (''[]'' @ rest) = Some (JArr [], rest)"
  by (simp add: skipWs_start isWhitespace_def)

lemma parseValue_object_empty: "parseValue rd (Suc f) (''{}'' @ rest) = Some (JObj [], rest)"
  by (simp add: skipWs_start isWhitespace_def)

lemma parseValue_array:
  "\<not> isWhitespace d \<Longrightarrow> d \<noteq> CHR '']'' \<Longrightarrow>
   parseValue rd (Suc f) (CHR ''['' # d # ds) =
     map_option (\<lambda>(xs, r). (JArr xs, r)) (parseElements rd f (d # ds))"
  by (simp add: skipWs_start isWhitespace_def)

lemma parseValue_object:
  "parseValue rd (Suc f) (CHR ''{'' # CHR 0x22 # ds) =
     map_option (\<lambda>(ms, r). (JObj (foldl (\<lambda>obj (k, v). setOwn k v obj) [] ms), r))
       (parseMembers rd f (CHR 0x22 # ds))"
  by (simp add: skipWs_start isWhitespace_def)

lemma parseElements_step:
  "parseValue rd f s = Some (v, d # ds) \<Longrightarrow> \<not> isWhitespace d \<Longrightarrow>
   parseElements rd (Suc f) s =
     (if d = CHR '','' then map_option (\<lambda>(xs, r'). (v # xs, r')) (parseElements rd f ds)
      else if d = CHR '']'' then Some ([v], ds)
      else None)"
  by (simp add: skipWs_start)

lemma parseMembers_step:
  "parseValue rd f ps = Some (v, d # ds) \<Longrightarrow> \<not> isWhitespace d \<Longrightarrow>
   parseMembers rd (Suc f) (QuoteJSONString k @ CHR '':'' # ps) =
     (if d = CHR '','' then map_option (\<lambda>(ms, r''). ((k, v) # ms, r'')) (parseMembers rd f ds)
      else if d = CHR ''}'' then Some ([(k, v)], ds)
      else None)"
  by (simp add: QuoteJSONString_def skipWs_start isWhitespace_def parseChars_quoted)

declare parseValue.simps [simp del] parseElements.simps [simp del] parseMembers.simps [simp del]

lemma define_fold_distinct:
  "distinct (map fst (acc @ ms)) \<Longrightarrow>
   foldl (\<lambda>obj (k, v). setOwn k v obj) acc ms = acc @ ms"
proof (induction ms arbitrary: acc)
  case Nil
  then show ?case by simp
next
  case (Cons m ms)
  obtain k v where m: "m = (k, v)" by (cases m)
  from Cons.prems have "k \<notin> fst ` set acc" by (auto simp: m)
  then have s: "setOwn k v acc = acc @ [(k, v)]" by (rule setOwn_fresh)
  from Cons.prems have "distinct (map fst ((acc @ [(k, v)]) @ ms))" by (simp add: m)
  from Cons.IH[OF this] show ?case by (simp add: m s)
qed

lemma stringify_first:
  assumes "\<forall>n \<in> set (numbers v). isJsonNumber (nts n)"
  shows "\<exists>c cs. JSON_stringify nts v = c # cs \<and> \<not> isWhitespace c
            \<and> c \<noteq> CHR '']'' \<and> c \<noteq> CHR ''}'' \<and> c \<noteq> CHR '',''"
proof (cases v)
  case (JNum n)
  with assms have "isJsonNumber (nts n)" by simp
  from isJsonNumber_chars[OF this] obtain c cs where t: "nts n = c # cs" and c: "isNumberChar c"
    by (cases "nts n") auto
  from numberChar_not_structural[OF c] c have "\<not> isWhitespace c \<and> c \<noteq> CHR '']'' \<and> c \<noteq> CHR ''}''
      \<and> c \<noteq> CHR '',''"
    by (auto simp: isNumberChar_def)
  with t JNum show ?thesis by simp
qed (simp_all add: isWhitespace_def QuoteJSONString_def)


lemma joinComma_Cons: "xs \<noteq> [] \<Longrightarrow> joinComma (x # xs) = x @ '','' @ joinComma xs"
  by (cases xs) simp_all

lemma comma_not_numberChar: "\<not> isNumberChar (CHR '','')" "\<not> isNumberChar (CHR '']'')"
  "\<not> isNumberChar (CHR ''}'')"
  by (simp_all add: isNumberChar_def)

lemma parseElements_joined:
  assumes "\<And>x f rest. x \<in> set xs \<Longrightarrow> weight x \<le> f \<Longrightarrow> rest = [] \<or> \<not> isNumberChar (hd rest) \<Longrightarrow>
             parseValue rd f (S x @ rest) = Some (x, rest)"
      and "xs \<noteq> []"
      and "sum_list (map (\<lambda>x. Suc (weight x)) xs) \<le> f"
  shows "parseElements rd f (joinComma (map S xs) @ CHR '']'' # rest) = Some (xs, rest)"
  using assms(2,1,3)
proof (induction xs arbitrary: f rule: list_nonempty_induct)
  case (single x)
  from single(2) obtain f1 where f: "f = Suc f1" and w: "weight x \<le> f1" by (cases f) auto
  have "parseValue rd f1 (S x @ CHR '']'' # rest) = Some (x, CHR '']'' # rest)"
    by (rule single(1)) (simp_all add: w comma_not_numberChar)
  from parseElements_step[OF this] show ?case by (simp add: f isWhitespace_def)
next
  case (cons x xs)
  from cons(4) obtain f1 where f: "f = Suc f1" and w: "weight x \<le> f1"
    and r: "sum_list (map (\<lambda>x. Suc (weight x)) xs) \<le> f1" by (cases f) auto
  have "parseValue rd f1 (S x @ CHR '','' # joinComma (map S xs) @ CHR '']'' # rest)
          = Some (x, CHR '','' # joinComma (map S xs) @ CHR '']'' # rest)"
    by (rule cons(3)) (simp_all add: w comma_not_numberChar)
  from parseElements_step[OF this]
  have "parseElements rd f (S x @ CHR '','' # joinComma (map S xs) @ CHR '']'' # rest) =
        map_option (\<lambda>(ys, r'). (x # ys, r'))
          (parseElements rd f1 (joinComma (map S xs) @ CHR '']'' # rest))"
    by (simp add: f isWhitespace_def)
  also have "parseElements rd f1 (joinComma (map S xs) @ CHR '']'' # rest) = Some (xs, rest)"
    by (rule cons(2)) (use cons(3) r in auto)
  finally show ?case using cons(1) by (simp add: joinComma_Cons)
qed

lemma parseMembers_joined:
  assumes "\<And>k x f rest. (k, x) \<in> set kvs \<Longrightarrow> weight x \<le> f \<Longrightarrow>
             rest = [] \<or> \<not> isNumberChar (hd rest) \<Longrightarrow>
             parseValue rd f (S x @ rest) = Some (x, rest)"
      and "kvs \<noteq> []"
      and "sum_list (map (\<lambda>(k, v). Suc (weight v)) kvs) \<le> f"
  shows "parseMembers rd f
           (joinComma (map (\<lambda>(k, v). QuoteJSONString k @ '':'' @ S v) kvs) @ CHR ''}'' # rest)
         = Some (kvs, rest)"
  using assms(2,1,3)
proof (induction kvs arbitrary: f rule: list_nonempty_induct)
  case (single e)
  obtain k x where e: "e = (k, x)" by (cases e)
  from single(2) obtain f1 where f: "f = Suc f1" and w: "weight x \<le> f1"
    by (cases f) (auto simp: e)
  have "parseValue rd f1 (S x @ CHR ''}'' # rest) = Some (x, CHR ''}'' # rest)"
    by (rule single(1)[of k]) (simp_all add: e w comma_not_numberChar)
  from parseMembers_step[OF this, of k] show ?case by (simp add: f e isWhitespace_def)
next
  case (cons e kvs)
  obtain k x where e: "e = (k, x)" by (cases e)
  let ?tail = "joinComma (map (\<lambda>(k, v). QuoteJSONString k @ '':'' @ S v) kvs) @ CHR ''}'' # rest"
  from cons(4) obtain f1 where f: "f = Suc f1" and w: "weight x \<le> f1"
    and r: "sum_list (map (\<lambda>(k, v). Suc (weight v)) kvs) \<le> f1"
    by (cases f) (auto simp: e)
  have "parseValue rd f1 (S x @ CHR '','' # ?tail) = Some (x, CHR '','' # ?tail)"
    by (rule cons(3)[of k]) (simp_all add: e w comma_not_numberChar)
  from parseMembers_step[OF this, of k]
  have "parseMembers rd f (QuoteJSONString k @ CHR '':'' # S x @ CHR '','' # ?tail) =
        map_option (\<lambda>(ms, r''). ((k, x) # ms, r'')) (parseMembers rd f1 ?tail)"
    by (simp add: f isWhitespace_def)
  also have "parseMembers rd f1 ?tail = Some (kvs, rest)"
    by (rule cons(2)) (use cons(3) r in auto)
  finally show ?case using cons(1) by (simp add: joinComma_Cons e)
qed


lemma parseValue_stringify:
  "keysDistinct v \<Longrightarrow>
   \<forall>n \<in> set (numbers v). isJsonNumber (nts n) \<and> rd (nts n) = n \<Longrightarrow>
   weight v \<le> f \<Longrightarrow> rest = [] \<or> \<not> isNumberChar (hd rest) \<Longrightarrow>
   parseValue rd f (JSON_stringify nts v @ rest) = Some (v, rest)"
proof (induction v arbitrary: f rest)
  case JNull
  then obtain f1 where "f = Suc f1" by (cases f) auto
  then show ?case using parseValue_null[of rd f1 rest] by simp
next
  case (JBool b)
  then obtain f1 where "f = Suc f1" by (cases f) auto
  then show ?case
    using parseValue_true[of rd f1 rest] parseValue_false[of rd f1 rest] by (cases b) simp_all
next
  case (JNum n)
  then obtain f1 where f: "f = Suc f1" by (cases f) auto
  from JNum.prems(2) have "isJsonNumber (nts n)" and "rd (nts n) = n" by simp_all
  with parseValue_number[OF _ JNum.prems(4), of "nts n" rd f1] show ?case by (simp add: f)
next
  case (JStr s)
  then obtain f1 where "f = Suc f1" by (cases f) auto
  then show ?case using parseValue_string[of rd f1 s rest] by simp
next
  case (JArr xs)
  from JArr.prems(3) obtain f1 where f: "f = Suc f1"
    and r: "sum_list (map (\<lambda>x. Suc (weight x)) xs) \<le> f1" by (cases f) auto
  show ?case
  proof (cases xs)
    case Nil
    then show ?thesis using parseValue_array_empty[of rd f1 rest] by (simp add: f)
  next
    case (Cons y ys)
    have each: "parseValue rd g (JSON_stringify nts x @ t) = Some (x, t)"
      if "x \<in> set xs" "weight x \<le> g" "t = [] \<or> \<not> isNumberChar (hd t)" for x g t
    proof (rule JArr.IH[OF that(1) _ _ that(2,3)])
      show "keysDistinct x" using JArr.prems(1) that(1) by (simp add: list_all_iff)
      show "\<forall>n \<in> set (numbers x). isJsonNumber (nts n) \<and> rd (nts n) = n"
        using JArr.prems(2) that(1) by auto
    qed
    have ne: "xs \<noteq> []" using Cons by simp
    have inner: "parseElements rd f1
        (joinComma (map (JSON_stringify nts) xs) @ CHR '']'' # rest) = Some (xs, rest)"
      by (rule parseElements_joined[OF each ne r])
    have "\<forall>n \<in> set (numbers y). isJsonNumber (nts n)" using JArr.prems(2) Cons by auto
    from stringify_first[OF this] obtain c cs where c: "JSON_stringify nts y = c # cs"
      "\<not> isWhitespace c" "c \<noteq> CHR '']''" by blast
    then obtain ds where ds: "joinComma (map (JSON_stringify nts) xs) @ CHR '']'' # rest = c # ds"
      unfolding Cons by (cases ys) auto
    have "parseValue rd f (CHR ''['' # c # ds) =
          map_option (\<lambda>(zs, r). (JArr zs, r)) (parseElements rd f1 (c # ds))"
      unfolding f by (rule parseValue_array[OF c(2,3)])
    then show ?thesis using inner unfolding ds[symmetric] by simp
  qed
next
  case (JObj kvs)
  from JObj.prems(3) obtain f1 where f: "f = Suc f1"
    and r: "sum_list (map (\<lambda>(k, v). Suc (weight v)) kvs) \<le> f1" by (cases f) auto
  show ?case
  proof (cases kvs)
    case Nil
    then show ?thesis using parseValue_object_empty[of rd f1 rest] by (simp add: f)
  next
    case (Cons e es)
    have each: "parseValue rd g (JSON_stringify nts x @ t) = Some (x, t)"
      if "(k, x) \<in> set kvs" "weight x \<le> g" "t = [] \<or> \<not> isNumberChar (hd t)" for k x g t
    proof (rule JObj.IH[OF that(1) _ _ _ that(2,3)])
      show "x \<in> Basic_BNFs.snds (k, x)" by simp
      show "keysDistinct x" using JObj.prems(1) that(1) by (auto simp: list_all_iff)
      show "\<forall>n \<in> set (numbers x). isJsonNumber (nts n) \<and> rd (nts n) = n"
        using JObj.prems(2) that(1) by force
    qed
    have ne: "kvs \<noteq> []" using Cons by simp
    let ?inner = "joinComma (map (\<lambda>(k, v). QuoteJSONString k @ '':'' @ JSON_stringify nts v) kvs)
                    @ CHR ''}'' # rest"
    have inner: "parseMembers rd f1 ?inner = Some (kvs, rest)"
      by (rule parseMembers_joined[OF each ne r])
    obtain ds where ds: "?inner = CHR 0x22 # ds"
      unfolding Cons by (cases e; cases es) (auto simp: QuoteJSONString_def)
    have d: "distinct (map fst ([] @ kvs))" using JObj.prems(1) by simp
    have "parseValue rd f (CHR ''{'' # CHR 0x22 # ds) =
          map_option (\<lambda>(ms, r). (JObj (foldl (\<lambda>obj (k, v). setOwn k v obj) [] ms), r))
            (parseMembers rd f1 (CHR 0x22 # ds))"
      unfolding f by (rule parseValue_object)
    then show ?thesis
      using inner define_fold_distinct[OF d] unfolding ds[symmetric] by simp
  qed
qed

lemma joinComma_length:
  "ys \<noteq> [] \<Longrightarrow> sum_list (map (\<lambda>y. Suc (length y)) ys) = Suc (length (joinComma ys))"
  by (induction ys rule: list_nonempty_induct) (simp_all add: joinComma_Cons)

lemma weight_le_length:
  "\<forall>n \<in> set (numbers v). nts n \<noteq> [] \<Longrightarrow> weight v \<le> length (JSON_stringify nts v)"
proof (induction v)
  case (JArr xs)
  show ?case
  proof (cases "xs = []")
    case True
    then show ?thesis by simp
  next
    case False
    have "sum_list (map (\<lambda>x. Suc (weight x)) xs)
            \<le> sum_list (map (\<lambda>x. Suc (length (JSON_stringify nts x))) xs)"
      by (rule sum_list_mono) (use JArr in auto)
    also have "\<dots> = sum_list (map (\<lambda>y. Suc (length y)) (map (JSON_stringify nts) xs))"
      by (simp add: comp_def)
    also have "\<dots> = Suc (length (joinComma (map (JSON_stringify nts) xs)))"
      by (rule joinComma_length) (use False in simp)
    finally show ?thesis by simp
  qed
next
  case (JObj kvs)
  show ?case
  proof (cases "kvs = []")
    case True
    then show ?thesis by simp
  next
    case False
    let ?m = "\<lambda>(k, v). QuoteJSONString k @ '':'' @ JSON_stringify nts v"
    have "sum_list (map (\<lambda>(k, v). Suc (weight v)) kvs)
            \<le> sum_list (map (\<lambda>e. Suc (length (?m e))) kvs)"
    proof (rule sum_list_mono)
      fix e assume e: "e \<in> set kvs"
      obtain k x where kx: "e = (k, x)" by (cases e)
      have "weight x \<le> length (JSON_stringify nts x)"
        by (rule JObj.IH[of e x]) (use e kx JObj.prems in force)+
      then show "(case e of (k, v) \<Rightarrow> Suc (weight v)) \<le> Suc (length (?m e))" by (simp add: kx)
    qed
    also have "\<dots> = sum_list (map (\<lambda>y. Suc (length y)) (map ?m kvs))"
      by (simp add: comp_def)
    also have "\<dots> = Suc (length (joinComma (map ?m kvs)))"
      by (rule joinComma_length) (use False in simp)
    finally show ?thesis by simp
  qed
qed (simp_all add: QuoteJSONString_def Suc_le_eq)

text \<open>
  What \<open>JSON.stringify\<close> writes, \<open>JSON.parse\<close> reads back as the same value, for a value
  whose objects have pairwise different keys and whose numbers survive being written and
  read. The budget of recursive calls that \<open>JSON_parse\<close> hands out is enough for that text.
\<close>

theorem JSON_parse_stringify:
  assumes "keysDistinct v"
      and "\<forall>n \<in> set (numbers v). isJsonNumber (nts n) \<and> rd (nts n) = n"
  shows "JSON_parse rd (JSON_stringify nts v) = Some v"
proof -
  have "\<forall>n \<in> set (numbers v). nts n \<noteq> []"
    using assms(2) isJsonNumber_chars by blast
  then have "weight v \<le> 2 * length (JSON_stringify nts v) + 2"
    using weight_le_length[of v nts] by simp
  from parseValue_stringify[OF assms this, of "[]"]
  show ?thesis by (simp add: JSON_parse_def skipWs_def)
qed


section \<open>The created record\<close>

lemma keysDistinct_sanitize: "keysDistinct (sanitize v)"
proof (induction v rule: sanitize.induct)
  case (1 xs)
  then show ?case by (simp add: list_all_iff)
next
  case (2 input)
  let ?out = "foldl (copyStep sanitize) [] input"
  have d: "distinct (map fst ?out)" by (rule copy_distinct) simp
  have "keysDistinct w" if "(k, w) \<in> set ?out" for k w
  proof -
    from copy_entries[OF that]
    obtain v where v: "(k, v) \<in> set input" "k \<noteq> ''elementScript''" "w = sanitize v"
      by auto
    from 2[OF v(1) refl v(2)] v(3) show ?thesis by simp
  qed
  then have "list_all (\<lambda>(k, v). keysDistinct v) ?out" unfolding list_all_iff by blast
  with d show ?case by simp
qed simp_all

text \<open>
  Claim C5, as the code has it. After a create answered with 201, by a store whose read-back
  returns the content that was inserted, the \<open>content\<close> field of the body is the scrubbed
  serialisation of the sanitized content. It is the serialisation of the sanitized content
  itself exactly when that serialisation has no \<open><script>\<close> and no \<open></script>\<close> in it,
  and then, read as JSON, it is the sanitized content again (given that its numbers survive
  being written and read).
\<close>

theorem created_content_reads_back:
  fixes env :: "('n, 'db) env"
  assumes "RequestSchema_parse body = Inr (ident, content)"
      and "handle env (Inr body) db = (resp, calls, db')"
      and "status resp = 201"
      and "\<forall>i c d d' r. prepared_insert env i c d = Inr d' \<longrightarrow>
             select_first env i d' = Inr (Some r) \<longrightarrow> row_content r = c"
  shows "\<exists>r. payload resp = Stored r
           \<and> row_content r = contentForDb (numberToString env) (sanitize content)
           \<and> (row_content r = JSON_stringify (numberToString env) (sanitize content) \<longleftrightarrow>
                \<not> includesStr (JSON_stringify (numberToString env) (sanitize content)) ''<script>''
                \<and> \<not> includesStr (JSON_stringify (numberToString env) (sanitize content))
                      ''</script>'')
           \<and> (\<not> includesStr (JSON_stringify (numberToString env) (sanitize content)) ''<script>''
              \<and> \<not> includesStr (JSON_stringify (numberToString env) (sanitize content)) ''</script>''
              \<and> (\<forall>n \<in> set (numbers (sanitize content)).
                    isJsonNumber (numberToString env n) \<and> rd (numberToString env n) = n)
              \<longrightarrow> JSON_parse rd (row_content r) = Some (sanitize content))"
proof -
  let ?c = "contentForDb (numberToString env) (sanitize content)"
  let ?tid = "case ident of Some i \<Rightarrow> i | None \<Rightarrow> randomUUID env"
  from assms(1,2,3) obtain d1 r where ins: "prepared_insert env ?tid ?c db = Inr d1"
    and sel: "select_first env ?tid d1 = Inr (Some r)" and p: "payload resp = Stored r"
    by (auto simp: handler_defs Let_def split: sum.splits option.splits if_splits)
  from assms(4) ins sel have rc: "row_content r = ?c" by blast
  have "JSON_parse rd (row_content r) = Some (sanitize content)"
    if "\<not> includesStr (JSON_stringify (numberToString env) (sanitize content)) ''<script>''
        \<and> \<not> includesStr (JSON_stringify (numberToString env) (sanitize content)) ''</script>''
        \<and> (\<forall>n \<in> set (numbers (sanitize content)).
              isJsonNumber (numberToString env n) \<and> rd (numberToString env n) = n)"
  proof -
    from that have "?c = JSON_stringify (numberToString env) (sanitize content)"
      unfolding contentForDb_scrub by (intro scrub_absent) simp_all
    with rc that JSON_parse_stringify[OF keysDistinct_sanitize, of content "numberToString env" rd]
    show ?thesis by simp
  qed
  moreover have "row_content r = JSON_stringify (numberToString env) (sanitize content) \<longleftrightarrow>
      \<not> includesStr (JSON_stringify (numberToString env) (sanitize content)) ''<script>''
      \<and> \<not> includesStr (JSON_stringify (numberToString env) (sanitize content)) ''</script>''"
  proof
    assume "row_content r = JSON_stringify (numberToString env) (sanitize content)"
    with rc have "JSON_stringify (numberToString env) (sanitize content)
        = scrub (JSON_stringify (numberToString env) (sanitize content))"
      unfolding contentForDb_scrub by simp
    then show "\<not> includesStr (JSON_stringify (numberToString env) (sanitize content)) ''<script>''
      \<and> \<not> includesStr (JSON_stringify (numberToString env) (sanitize content)) ''</script>''"
      using scrub_no_open[of "JSON_stringify (numberToString env) (sanitize content)"]
            scrub_no_close[of "JSON_stringify (numberToString env) (sanitize content)"]
      by simp
  next
    assume "\<not> includesStr (JSON_stringify (numberToString env) (sanitize content)) ''<script>''
      \<and> \<not> includesStr (JSON_stringify (numberToString env) (sanitize content)) ''</script>''"
    then have "?c = JSON_stringify (numberToString env) (sanitize content)"
      unfolding contentForDb_scrub by (intro scrub_absent) simp_all
    with rc show "row_content r = JSON_stringify (numberToString env) (sanitize content)" by simp
  qed
  ultimately show ?thesis using p rc by blast
qed


lemma tableEnv_reads_back:
  "\<forall>i c d d' r. prepared_insert (tableEnv u) i c d = Inr d' \<longrightarrow>
      select_first (tableEnv u) i d' = Inr (Some r) \<longrightarrow> row_content r = c"
  by (auto simp: table_defs split: if_splits)

lemma sample_handle:
  "handle (tableEnv ''00000000-0000-4000-8000-000000000000'')
     (Inr (JObj [(''content'', JObj [(''a'', JNum ''1''), (''elementScript'', JStr ''x'')])]))
     Map.empty
   = (respond 201
        (Stored \<lparr>row_id = ''00000000-0000-4000-8000-000000000000'',
                 row_content = ''{'' @ [CHR 0x22] @ ''a'' @ [CHR 0x22] @ '':1}''\<rparr>),
      [Insert ''00000000-0000-4000-8000-000000000000''
         (''{'' @ [CHR 0x22] @ ''a'' @ [CHR 0x22] @ '':1}''),
       SelectById ''00000000-0000-4000-8000-000000000000''],
      [''00000000-0000-4000-8000-000000000000''
         \<mapsto> ''{'' @ [CHR 0x22] @ ''a'' @ [CHR 0x22] @ '':1}''])"
  by (simp add: handle_def handle_try_def catchAll_def readBack_def parse_content_object
        Let_def sample_content table_defs blobSize_def maxBytes_def del: sanitize.simps)

theorem created_content_reads_back_witness:
  "handle (tableEnv ''00000000-0000-4000-8000-000000000000'')
     (Inr (JObj [(''content'', JObj [(''a'', JNum ''1''), (''elementScript'', JStr ''x'')])]))
     Map.empty
   = (respond 201
        (Stored \<lparr>row_id = ''00000000-0000-4000-8000-000000000000'',
                 row_content = ''{'' @ [CHR 0x22] @ ''a'' @ [CHR 0x22] @ '':1}''\<rparr>),
      [Insert ''00000000-0000-4000-8000-000000000000''
         (''{'' @ [CHR 0x22] @ ''a'' @ [CHR 0x22] @ '':1}''),
       SelectById ''00000000-0000-4000-8000-000000000000''],
      [''00000000-0000-4000-8000-000000000000''
         \<mapsto> ''{'' @ [CHR 0x22] @ ''a'' @ [CHR 0x22] @ '':1}''])
   \<and> sanitize (JObj [(''a'', JNum ''1''), (''elementScript'', JStr ''x'')])
       = JObj [(''a'', JNum ''1'')]
   \<and> JSON_parse (\<lambda>t. t) (''{'' @ [CHR 0x22] @ ''a'' @ [CHR 0x22] @ '':1}'')
       = Some (JObj [(''a'', JNum ''1'')])"
proof -
  let ?env = "tableEnv ''00000000-0000-4000-8000-000000000000''"
  let ?content = "JObj [(''a'', JNum ''1''), (''elementScript'', JStr ''x'')] :: string json"
  let ?text = "''{'' @ [CHR 0x22] @ ''a'' @ [CHR 0x22] @ '':1}''"
  have nts: "numberToString ?env = (\<lambda>t. t)" by (simp add: tableEnv_def)
  have san: "sanitize ?content = JObj [(''a'', JNum ''1'')]" by (simp add: assignProp_def)
  have st: "status (respond 201 (Stored \<lparr>row_id = ''00000000-0000-4000-8000-000000000000'',
                 row_content = ?text\<rparr>)) = 201"
    by (simp add: respond_def)
  have ser: "JSON_stringify (\<lambda>t. t) (JObj [(''a'', JNum ''1'')]) = ?text"
    by (simp add: QuoteJSONString_def quoteChar_def)
  have clean: "\<not> includesStr ?text ''<script>''" "\<not> includesStr ?text ''</script>''"
    by simp_all
  have num: "isJsonNumber ''1''" by code_simp
  have h1: "\<not> includesStr (JSON_stringify (numberToString ?env) (sanitize ?content)) ''<script>''"
   and h2: "\<not> includesStr (JSON_stringify (numberToString ?env) (sanitize ?content)) ''</script>''"
    unfolding nts san ser using clean by simp_all
  have h3: "\<forall>n \<in> set (numbers (sanitize ?content)).
              isJsonNumber (numberToString ?env n) \<and> (\<lambda>t. t) (numberToString ?env n) = n"
    unfolding nts san using num by simp
  from created_content_reads_back
         [OF parse_content_object sample_handle st tableEnv_reads_back, of "\<lambda>t. t"]
  obtain r where r: "payload (respond 201 (Stored \<lparr>row_id = ''00000000-0000-4000-8000-000000000000'',
                 row_content = ?text\<rparr>)) = Stored r"
    and rt: "JSON_parse (\<lambda>t. t) (row_content r) = Some (sanitize ?content)"
    using h1 h2 h3 by blast
  from r have "row_content r = ?text" by (auto simp: respond_def)
  with rt have "JSON_parse (\<lambda>t. t) ?text = Some (JObj [(''a'', JNum ''1'')])"
    unfolding san by simp
  with sample_handle san show ?thesis by blast
qed

text \<open>
  Claim C5 as it was stated fails on the content \<open>"<script>"\<close>: the create is answered with
  201, the \<open>content\<close> field of the body is the text \<open>"&lt;script&gt;"\<close>, and that text reads
  back as the string \<open>&lt;script&gt;\<close>, which is not the sanitized content \<open><script>\<close>.
\<close>

theorem round_trip_counterexample:
  "handle (tableEnv ''00000000-0000-4000-8000-000000000000'')
     (Inr (JObj [(''content'', JStr ''<script>'')])) Map.empty
   = (respond 201
        (Stored \<lparr>row_id = ''00000000-0000-4000-8000-000000000000'',
                 row_content = [CHR 0x22] @ ''&lt;script&gt;'' @ [CHR 0x22]\<rparr>),
      [Insert ''00000000-0000-4000-8000-000000000000''
         ([CHR 0x22] @ ''&lt;script&gt;'' @ [CHR 0x22]),
       SelectById ''00000000-0000-4000-8000-000000000000''],
      [''00000000-0000-4000-8000-000000000000''
         \<mapsto> [CHR 0x22] @ ''&lt;script&gt;'' @ [CHR 0x22]])
   \<and> JSON_parse (\<lambda>t. t) ([CHR 0x22] @ ''&lt;script&gt;'' @ [CHR 0x22])
       = Some (JStr ''&lt;script&gt;'')
   \<and> JSON_parse (\<lambda>t. t) ([CHR 0x22] @ ''&lt;script&gt;'' @ [CHR 0x22])
       \<noteq> Some (sanitize (JStr ''<script>''))"
proof -
  have c: "contentForDb (\<lambda>t. t) (JStr ''<script>'')
     = [CHR 0x22] @ ''&lt;script&gt;'' @ [CHR 0x22]"
    by (simp add: text_defs)
  have h: "handle (tableEnv ''00000000-0000-4000-8000-000000000000'')
     (Inr (JObj [(''content'', JStr ''<script>'')])) Map.empty
   = (respond 201
        (Stored \<lparr>row_id = ''00000000-0000-4000-8000-000000000000'',
                 row_content = [CHR 0x22] @ ''&lt;script&gt;'' @ [CHR 0x22]\<rparr>),
      [Insert ''00000000-0000-4000-8000-000000000000''
         ([CHR 0x22] @ ''&lt;script&gt;'' @ [CHR 0x22]),
       SelectById ''00000000-0000-4000-8000-000000000000''],
      [''00000000-0000-4000-8000-000000000000''
         \<mapsto> [CHR 0x22] @ ''&lt;script&gt;'' @ [CHR 0x22]])"
    by (simp add: handle_def handle_try_def catchAll_def readBack_def parse_content_only
        Let_def c table_defs blobSize_def maxBytes_def)
  have "JSON_parse (\<lambda>t. t) (JSON_stringify (\<lambda>t. t) (JStr ''&lt;script&gt;'' :: string json))
      = Some (JStr ''&lt;script&gt;'')"
    by (rule JSON_parse_stringify) simp_all
  then have p: "JSON_parse (\<lambda>t. t) ([CHR 0x22] @ ''&lt;script&gt;'' @ [CHR 0x22])
       = Some (JStr ''&lt;script&gt;'' :: string json)"
    by (simp add: QuoteJSONString_def quoteChar_def)
  from h p show ?thesis by simp
qed


end
